theory Spec2Isabelle
  imports Main "HOL-Library.Word" "HOL-Library.Signed_Division"
begin

section \<open>Expression trees\<close>

text \<open>
  The optimizer works on \<^verbatim>\<open>ASTPtr\<close> values.  Four node classes occur in
  \<^verbatim>\<open>WhereConstraintsOptimizer.cpp\<close>: literals, identifiers, expression lists and
  functions.  An \<^verbatim>\<open>ASTFunction\<close> has a name and an \<^verbatim>\<open>arguments\<close> node, which is
  its child; the arguments proper are the children of that node
  (\<^verbatim>\<open>func->arguments->children\<close>).
\<close>

datatype Field = UInt64 nat | Int64 int | String string

datatype IAST =
    ASTLiteral Field
  | ASTIdentifier string
  | ASTExpressionList "IAST list"
  | ASTFunction string IAST

fun children :: "IAST \<Rightarrow> IAST list" where
  "children (ASTLiteral v) = []"
| "children (ASTIdentifier n) = []"
| "children (ASTExpressionList cs) = cs"
| "children (ASTFunction n args) = [args]"

text \<open>Writing a new list of child pointers into a node (the node's own data stay).\<close>

fun setChildren :: "IAST \<Rightarrow> IAST list \<Rightarrow> IAST" where
  "setChildren (ASTLiteral v) cs = ASTLiteral v"
| "setChildren (ASTIdentifier n) cs = ASTIdentifier n"
| "setChildren (ASTExpressionList old) cs = ASTExpressionList cs"
| "setChildren (ASTFunction n args) cs = ASTFunction n (case cs of [] \<Rightarrow> args | c # _ \<Rightarrow> c)"

text \<open>
  On immutable values a deep copy is the value itself; the store model of the last
  section is where \<^verbatim>\<open>clone\<close> allocates.
\<close>

definition clone :: "IAST \<Rightarrow> IAST" where
  "clone t = t"

text \<open>
  \<^verbatim>\<open>IAST::getTreeHash\<close> is not part of the sources at hand.  It is a parameter of
  every definition that calls it, written \<open>getTreeHash\<close>; its result is a pair of
  64-bit words.
\<close>

type_synonym Hash = "64 word \<times> 64 word"

section \<open>CNF data model\<close>

record AtomicFormula =
  negative :: bool
  ast :: IAST

text \<open>
  Modelled from the spec: the declaration of \<^verbatim>\<open>CNFQuery::OrGroup\<close> is missing.  The spec
  calls it an ordered collection of atomic formulas in which duplicate atoms may occur
  (they are removed by \<^verbatim>\<open>reduce\<close>); a query is a sequence of groups.
\<close>

type_synonym OrGroup = "AtomicFormula list"
type_synonym CNFQuery = "OrGroup list"

section \<open>Comparison graph\<close>

datatype CompareResult =
  LESS | LESS_OR_EQUAL | EQUAL | GREATER_OR_EQUAL | GREATER | NOT_EQUAL | UNKNOWN

text \<open>
  The class \<^verbatim>\<open>ComparisonGraph\<close> is missing from the sources.  Its three queries used by
  the optimizer are the fields of a record, so that every result below holds for any
  graph.
\<close>

record ComparisonGraph =
  isAlwaysCompare :: "CompareResult \<Rightarrow> IAST \<Rightarrow> IAST \<Rightarrow> bool"
  isPossibleCompare :: "CompareResult \<Rightarrow> IAST \<Rightarrow> IAST \<Rightarrow> bool"
  getEqualConst :: "IAST \<Rightarrow> IAST option"

text \<open>
  Modelled from the spec: \<^verbatim>\<open>ComparisonGraph::getCompareResult\<close> is missing.  It maps the
  name of a comparison function to its relation kind and any other name to
  \<open>UNKNOWN\<close>.
\<close>

definition getCompareResult :: "string \<Rightarrow> CompareResult" where
  "getCompareResult name =
     (if name = ''equals'' then EQUAL
      else if name = ''notEquals'' then NOT_EQUAL
      else if name = ''less'' then LESS
      else if name = ''lessOrEquals'' then LESS_OR_EQUAL
      else if name = ''greaterOrEquals'' then GREATER_OR_EQUAL
      else if name = ''greater'' then GREATER
      else UNKNOWN)"

text \<open>
  Modelled from the spec: \<^verbatim>\<open>ComparisonGraph::inverseCompareResult\<close> is missing.  It
  returns the logical negation of a relation kind.
\<close>

fun inverseCompareResult :: "CompareResult \<Rightarrow> CompareResult" where
  "inverseCompareResult NOT_EQUAL = EQUAL"
| "inverseCompareResult EQUAL = NOT_EQUAL"
| "inverseCompareResult GREATER_OR_EQUAL = LESS"
| "inverseCompareResult GREATER = LESS_OR_EQUAL"
| "inverseCompareResult LESS = GREATER_OR_EQUAL"
| "inverseCompareResult LESS_OR_EQUAL = GREATER"
| "inverseCompareResult UNKNOWN = UNKNOWN"

section \<open>Constraints description\<close>

record AtomId =
  and_group :: nat
  atom :: nat

text \<open>
  Modelled from the spec: the class \<^verbatim>\<open>ConstraintsDescription\<close> is missing.  It holds the
  declared constraints as a list of groups and the comparison graph derived from them.
\<close>

record ConstraintsDescription =
  getConstraintData :: "AtomicFormula list list"
  getGraph :: ComparisonGraph

text \<open>
  Modelled from the spec: \<^verbatim>\<open>getAtomIds\<close> returns the (group, position) pairs of the
  stored atoms whose expression fingerprint equals that of the given expression, and
  nothing when there is none.
\<close>

definition getAtomIds ::
  "(IAST \<Rightarrow> Hash) \<Rightarrow> ConstraintsDescription \<Rightarrow> IAST \<Rightarrow> AtomId list option" where
  "getAtomIds getTreeHash cd e =
     (let data = getConstraintData cd;
          ids = concat (map (\<lambda>i.
                  map (\<lambda>j. \<lparr>and_group = i, atom = j\<rparr>)
                    (filter (\<lambda>j. getTreeHash (ast (data ! i ! j)) = getTreeHash e)
                       [0 ..< length (data ! i)]))
                [0 ..< length data])
      in if ids = [] then None else Some ids)"

text \<open>Modelled from the spec: \<^verbatim>\<open>getAtomsById\<close> resolves identifiers to the stored atoms.\<close>

definition getAtomsById :: "ConstraintsDescription \<Rightarrow> AtomId list \<Rightarrow> AtomicFormula list" where
  "getAtomsById cd ids = map (\<lambda>i. getConstraintData cd ! and_group i ! atom i) ids"

section \<open>Matching\<close>

datatype MatchState = FULL_MATCH | NOT_MATCH | NONE

definition match :: "(IAST \<Rightarrow> Hash) \<Rightarrow> AtomicFormula \<Rightarrow> AtomicFormula \<Rightarrow> MatchState" where
  "match getTreeHash a b =
     (let match_means_ok = ((True \<noteq> negative a) \<noteq> negative b)
      in if getTreeHash (ast a) = getTreeHash (ast b)
         then (if match_means_ok then FULL_MATCH else NOT_MATCH)
         else NONE)"

section \<open>Always-true groups\<close>

text \<open>
  \<^verbatim>\<open>checkIfGroupAlwaysTrueFullMatch\<close>: the vector \<^verbatim>\<open>found\<close> of \<^verbatim>\<open>size_t\<close> counters is a
  list of 64-bit words.  The two loops are recursive functions over the atoms still to
  visit; \<open>None\<close> is the early \<^verbatim>\<open>return true\<close>, \<open>Some found\<close> the counters after the loop.
\<close>

fun fullMatchInner ::
  "(IAST \<Rightarrow> Hash) \<Rightarrow> AtomicFormula \<Rightarrow> (AtomId \<times> AtomicFormula) list \<Rightarrow> 64 word list
     \<Rightarrow> 64 word list option" where
  "fullMatchInner getTreeHash a [] found = Some found"
| "fullMatchInner getTreeHash a ((i, c) # rest) found =
     (if match getTreeHash c a = FULL_MATCH
      then (let found' = found[and_group i := found ! and_group i - 1]
            in if found' ! and_group i = 0 then None
               else fullMatchInner getTreeHash a rest found')
      else fullMatchInner getTreeHash a rest found)"

fun fullMatchOuter ::
  "(IAST \<Rightarrow> Hash) \<Rightarrow> ConstraintsDescription \<Rightarrow> OrGroup \<Rightarrow> 64 word list \<Rightarrow> bool" where
  "fullMatchOuter getTreeHash cd [] found = False"
| "fullMatchOuter getTreeHash cd (a # rest) found =
     (case getAtomIds getTreeHash cd (ast a) of
        None \<Rightarrow> fullMatchOuter getTreeHash cd rest found
      | Some constraint_atom_ids \<Rightarrow>
          (let constraint_atoms = getAtomsById cd constraint_atom_ids
           in case fullMatchInner getTreeHash a (zip constraint_atom_ids constraint_atoms) found of
                None \<Rightarrow> True
              | Some found' \<Rightarrow> fullMatchOuter getTreeHash cd rest found'))"

definition checkIfGroupAlwaysTrueFullMatch ::
  "(IAST \<Rightarrow> Hash) \<Rightarrow> OrGroup \<Rightarrow> ConstraintsDescription \<Rightarrow> bool" where
  "checkIfGroupAlwaysTrueFullMatch getTreeHash grp constraints_description =
     (let constraints_data = getConstraintData constraints_description;
          found = map (\<lambda>g. (of_nat (length g) :: 64 word)) constraints_data
      in fullMatchOuter getTreeHash constraints_description grp found)"

definition getExpectedCompare :: "AtomicFormula \<Rightarrow> CompareResult" where
  "getExpectedCompare a =
     (case ast a of
        ASTFunction name args \<Rightarrow>
          (let expected = getCompareResult name
           in if negative a then inverseCompareResult expected else expected)
      | _ \<Rightarrow> UNKNOWN)"

fun checkIfGroupAlwaysTrueGraph :: "OrGroup \<Rightarrow> ComparisonGraph \<Rightarrow> bool" where
  "checkIfGroupAlwaysTrueGraph [] graph = False"
| "checkIfGroupAlwaysTrueGraph (a # rest) graph =
     (case ast a of
        ASTFunction name args \<Rightarrow>
          (if length (children args) = 2
           then isAlwaysCompare graph (getExpectedCompare a) (children args ! 0) (children args ! 1)
           else checkIfGroupAlwaysTrueGraph rest graph)
      | _ \<Rightarrow> checkIfGroupAlwaysTrueGraph rest graph)"

section \<open>Always-false atoms\<close>

fun anyNotMatch :: "(IAST \<Rightarrow> Hash) \<Rightarrow> AtomicFormula list \<Rightarrow> AtomicFormula \<Rightarrow> bool" where
  "anyNotMatch getTreeHash [] a = False"
| "anyNotMatch getTreeHash (constraint_atom # rest) a =
     (let match_result = match getTreeHash constraint_atom a
      in if match_result = NOT_MATCH then True else anyNotMatch getTreeHash rest a)"

definition checkIfAtomAlwaysFalseFullMatch ::
  "(IAST \<Rightarrow> Hash) \<Rightarrow> AtomicFormula \<Rightarrow> ConstraintsDescription \<Rightarrow> bool" where
  "checkIfAtomAlwaysFalseFullMatch getTreeHash a constraints_description =
     (case getAtomIds getTreeHash constraints_description (ast a) of
        Some constraint_atom_ids \<Rightarrow>
          anyNotMatch getTreeHash (getAtomsById constraints_description constraint_atom_ids) a
      | None \<Rightarrow> False)"

definition checkIfAtomAlwaysFalseGraph :: "AtomicFormula \<Rightarrow> ComparisonGraph \<Rightarrow> bool" where
  "checkIfAtomAlwaysFalseGraph a graph =
     (case ast a of
        ASTFunction name args \<Rightarrow>
          (if length (children args) = 2
           then \<not> isPossibleCompare graph (getExpectedCompare a) (children args ! 0) (children args ! 1)
           else False)
      | _ \<Rightarrow> False)"

section \<open>Constant folding\<close>

fun replaceToConstants :: "ComparisonGraph \<Rightarrow> IAST \<Rightarrow> IAST" where
  "replaceToConstants graph term =
     (case getEqualConst graph term of
        Some equal_constant \<Rightarrow> clone equal_constant
      | None \<Rightarrow>
          (case term of
             ASTLiteral v \<Rightarrow> term
           | ASTIdentifier n \<Rightarrow> term
           | ASTExpressionList cs \<Rightarrow> ASTExpressionList (map (replaceToConstants graph) cs)
           | ASTFunction n args \<Rightarrow> ASTFunction n (replaceToConstants graph args)))"

definition replaceTermsToConstants :: "AtomicFormula \<Rightarrow> ComparisonGraph \<Rightarrow> AtomicFormula" where
  "replaceTermsToConstants a graph =
     \<lparr>negative = negative a, ast = replaceToConstants graph (clone (ast a))\<rparr>"

section \<open>The driver\<close>

text \<open>
  Modelled from the spec: the rewrite combinators of \<^verbatim>\<open>CNFQuery\<close> are missing.
  \<^verbatim>\<open>filterAlwaysTrueGroups\<close> removes every group for which the predicate is false;
  \<^verbatim>\<open>filterAlwaysFalseAtoms\<close> removes from each group every atom for which the predicate
  is false (a group emptied this way stays in the query as the empty disjunction, which
  makes the whole query false, and so differs from a group that was removed);
  \<^verbatim>\<open>transformAtoms\<close> replaces each atom by its image.
\<close>

definition filterAlwaysTrueGroups :: "(OrGroup \<Rightarrow> bool) \<Rightarrow> CNFQuery \<Rightarrow> CNFQuery" where
  "filterAlwaysTrueGroups predicate cnf = filter predicate cnf"

definition filterAlwaysFalseAtoms :: "(AtomicFormula \<Rightarrow> bool) \<Rightarrow> CNFQuery \<Rightarrow> CNFQuery" where
  "filterAlwaysFalseAtoms predicate cnf = map (filter predicate) cnf"

definition transformAtoms :: "(AtomicFormula \<Rightarrow> AtomicFormula) \<Rightarrow> CNFQuery \<Rightarrow> CNFQuery" where
  "transformAtoms fn cnf = map (map fn) cnf"

record StorageInMemoryMetadata =
  getConstraints :: ConstraintsDescription

text \<open>
  The remaining collaborators of \<^verbatim>\<open>perform\<close> are missing from the sources and are
  parameters: the converter between expressions and CNF, the negation rewrites and
  \<^verbatim>\<open>reduce\<close> of \<^verbatim>\<open>CNFQuery\<close>, its \<^verbatim>\<open>dump\<close>, and the index-constraint appender.  An
  \<^verbatim>\<open>ASTPtr\<close> that may be null is an option.
\<close>

record Collaborators =
  toCNF :: "IAST \<Rightarrow> CNFQuery"
  fromCNF :: "CNFQuery \<Rightarrow> IAST option"
  pullNotOutFunctions :: "CNFQuery \<Rightarrow> CNFQuery"
  reduce :: "CNFQuery \<Rightarrow> CNFQuery"
  pushNotInFuntions :: "CNFQuery \<Rightarrow> CNFQuery"
  dump :: "CNFQuery \<Rightarrow> string"
  addIndexConstraints :: "StorageInMemoryMetadata \<Rightarrow> CNFQuery \<Rightarrow> CNFQuery"

text \<open>
  The optimizer object holds a pointer to the select query, the metadata snapshot (a
  shared pointer, possibly null) and a flag.  The select query and the lines written to
  the logger are the state that \<^verbatim>\<open>perform\<close> changes.
\<close>

record ASTSelectQuery =
  whereExpression :: "IAST option"

record WhereConstraintsOptimizer =
  metadata_snapshot :: "StorageInMemoryMetadata option"
  optimize_append_index :: bool

record World =
  select_query :: ASTSelectQuery
  logger :: "string list"

definition optimizeCNF ::
  "Collaborators \<Rightarrow> (IAST \<Rightarrow> Hash) \<Rightarrow> StorageInMemoryMetadata \<Rightarrow> CNFQuery \<Rightarrow> CNFQuery" where
  "optimizeCNF env getTreeHash metadata cnf =
     (let compare_graph = getGraph (getConstraints metadata)
      in pushNotInFuntions env
           (reduce env
             (transformAtoms (\<lambda>a. replaceTermsToConstants a compare_graph)
               (filterAlwaysFalseAtoms
                  (\<lambda>a. \<not> checkIfAtomAlwaysFalseFullMatch getTreeHash a (getConstraints metadata)
                       \<and> \<not> checkIfAtomAlwaysFalseGraph a compare_graph)
                  (filterAlwaysTrueGroups
                     (\<lambda>g. \<not> checkIfGroupAlwaysTrueFullMatch getTreeHash g (getConstraints metadata)
                          \<and> \<not> checkIfGroupAlwaysTrueGraph g compare_graph)
                     (pullNotOutFunctions env cnf))))))"

definition perform ::
  "Collaborators \<Rightarrow> (IAST \<Rightarrow> Hash) \<Rightarrow> WhereConstraintsOptimizer \<Rightarrow> World \<Rightarrow> World" where
  "perform env getTreeHash this w =
     (case (whereExpression (select_query w), metadata_snapshot this) of
        (Some where_expr, Some metadata) \<Rightarrow>
          (let cnf = toCNF env where_expr;
               log1 = logger w @ [''Before optimization: '' @ dump env cnf];
               cnf1 = optimizeCNF env getTreeHash metadata cnf;
               cnf2 = (if optimize_append_index this then addIndexConstraints env metadata cnf1
                       else cnf1);
               log2 = log1 @ [''After optimization: '' @ dump env cnf2]
           in \<lparr>select_query = (select_query w)\<lparr>whereExpression := fromCNF env cnf2\<rparr>,
               logger = log2\<rparr>)
      | _ \<Rightarrow> w)"

text \<open>
  The chain of rewrites in \<^verbatim>\<open>perform\<close> is \<open>optimizeCNF\<close>; \<^verbatim>\<open>perform\<close> itself converts,
  logs, optionally appends index constraints and stores the result.
\<close>

section \<open>Integer formatting\<close>

text \<open>
  \<^verbatim>\<open>writeIntText\<close> of \<^verbatim>\<open>WriteHelpers.h\<close> is a template over the integer type \<open>T\<close>.  A
  value of \<open>T\<close> is a word of the type's width together with a flag that says whether
  \<open>T\<close> is signed.  The \<^verbatim>\<open>WriteBuffer\<close> is the sequence of bytes written to it so far.
\<close>

definition WRITE_HELPERS_MAX_INT_WIDTH :: nat where
  "WRITE_HELPERS_MAX_INT_WIDTH = 20"

type_synonym WriteBuffer = string

definition writeChar :: "char \<Rightarrow> WriteBuffer \<Rightarrow> WriteBuffer" where
  "writeChar x buf = buf @ [x]"

definition bufWrite :: "string \<Rightarrow> WriteBuffer \<Rightarrow> WriteBuffer" where
  "bufWrite s buf = buf @ s"

text \<open>
  A run of the function that has no defined result: an arithmetic operation of a signed
  type whose result the type cannot represent, or an access outside the array \<^verbatim>\<open>tmp\<close>.
\<close>

datatype Undefined = SignedOverflow | OutOfBounds

text \<open>
  The operations of \<open>T\<close> that the function uses.  \<^verbatim>\<open>x < 0\<close> never holds for an unsigned
  type.  Division and remainder of a signed type truncate towards zero; for the narrow
  types they are computed after promotion to \<^verbatim>\<open>int\<close> and the quotient is converted back,
  which gives the same results.
\<close>

definition isNegative :: "bool \<Rightarrow> 'a::len word \<Rightarrow> bool" where
  "isNegative is_signed x = (is_signed \<and> sint x < 0)"

definition div10 :: "bool \<Rightarrow> 'a::len word \<Rightarrow> 'a word" where
  "div10 is_signed x = (if is_signed then word_of_int (sint x sdiv 10) else x div 10)"

definition mod10 :: "bool \<Rightarrow> 'a::len word \<Rightarrow> int" where
  "mod10 is_signed x = (if is_signed then sint x smod 10 else uint (x mod 10))"

text \<open>
  \<^verbatim>\<open>x = -x\<close>, which the function executes for a negative \<open>x\<close> of a signed type.  The type
  \<^verbatim>\<open>int\<close> has 32 bits.  An operand of a narrower type is promoted to \<^verbatim>\<open>int\<close>, negated
  there and converted back to \<open>T\<close>, which reduces it modulo \<open>2\<close> to the width of \<open>T\<close>: the
  smallest value of the type is its own negation.  For a type of 32 bits or more the
  negation is computed in \<open>T\<close>, and that of the smallest value of the type overflows: the
  language gives it no result.
\<close>

definition negate :: "'a::len word \<Rightarrow> Undefined + 'a word" where
  "negate x =
     (if LENGTH('a) < 32 then Inr (- x)
      else if sint x = - (2 ^ (LENGTH('a) - 1)) then Inl SignedOverflow
      else Inr (- x))"

text \<open>The measure by which the digit loop terminates.\<close>

definition magnitude :: "bool \<Rightarrow> 'a::len word \<Rightarrow> nat" where
  "magnitude is_signed x = (if is_signed then nat \<bar>sint x\<bar> else unat x)"

lemma sint_word_of_int_small:
  fixes x :: "'a::len word"
  assumes "\<bar>k\<bar> < \<bar>sint x\<bar>"
  shows "sint (word_of_int k :: 'a word) = k"
proof -
  have "- (2 ^ (LENGTH('a) - 1)) \<le> sint x" "sint x < 2 ^ (LENGTH('a) - 1)"
    by (rule sint_ge, rule sint_lt)
  with assms have "- (2 ^ (LENGTH('a) - 1)) \<le> k" "k < 2 ^ (LENGTH('a) - 1)"
    by linarith+
  then show ?thesis
    by (simp add: sint_sbintrunc' signed_take_bit_int_eq_self)
qed

lemma abs_sdiv_10: "\<bar>(v::int) sdiv 10\<bar> = \<bar>v\<bar> div 10"
  by (cases "v = 0") (simp_all add: signed_divide_int_def abs_mult abs_sgn_eq)

lemma unat_10_neq_1: "unat (10 :: 'a::len word) \<noteq> 1"
proof
  assume a: "unat (10 :: 'a word) = 1"
  have "unat (10 :: 'a word) = 10 mod 2 ^ LENGTH('a)"
    by (simp add: unsigned_numeral take_bit_eq_mod)
  moreover have "(2::nat) dvd 2 ^ LENGTH('a)" by simp
  then have "(10 mod 2 ^ LENGTH('a)) mod 2 = (10::nat) mod 2" by (rule mod_mod_cancel)
  ultimately show False using a by simp
qed

lemma magnitude_div10:
  fixes x :: "'a::len word"
  assumes "x \<noteq> 0"
  shows "magnitude is_signed (div10 is_signed x) < magnitude is_signed x"
proof (cases is_signed)
  case True
  let ?v = "sint x"
  have v: "0 < \<bar>?v\<bar>" using assms by (simp add: signed_eq_0_iff)
  have lt: "\<bar>?v\<bar> div 10 < \<bar>?v\<bar>" using v by (intro int_div_less_self) simp_all
  then have "sint (word_of_int (?v sdiv 10) :: 'a word) = ?v sdiv 10"
    by (intro sint_word_of_int_small[of _ x]) (simp add: abs_sdiv_10)
  then show ?thesis using True lt by (simp add: magnitude_def div10_def abs_sdiv_10)
next
  case False
  have pos: "0 < unat x" using assms by (simp add: unat_gt_0)
  have d: "unat (x div 10) = unat x div unat (10 :: 'a word)" by (rule unat_div)
  have "unat x div unat (10 :: 'a word) < unat x"
  proof (cases "unat (10 :: 'a word) = 0")
    case True
    then show ?thesis using pos by simp
  next
    case False
    then have "1 < unat (10 :: 'a word)" using unat_10_neq_1[where 'a='a] by linarith
    then show ?thesis using pos by (intro div_less_dividend)
  qed
  then show ?thesis using False d by (simp add: magnitude_def div10_def)
qed

text \<open>
  The loop \<^verbatim>\<open>for (pos = tmp + 19; x != 0; --pos)\<close>.  The array \<^verbatim>\<open>tmp\<close> is a list and \<^verbatim>\<open>pos\<close>
  the offset of the pointer from its start; an access outside the array is the result
  \<open>None\<close>.
\<close>

function digitLoop ::
  "bool \<Rightarrow> 'a::len word \<Rightarrow> char list \<Rightarrow> int \<Rightarrow> (char list \<times> int) option" where
  "digitLoop is_signed x tmp pos =
     (if x = 0 then Some (tmp, pos)
      else if 0 \<le> pos \<and> pos < int (length tmp)
      then digitLoop is_signed (div10 is_signed x)
             (tmp[nat pos := char_of (48 + mod10 is_signed x)]) (pos - 1)
      else None)"
  by pat_completeness auto
termination
  by (relation "measure (\<lambda>(is_signed, x, tmp, pos). magnitude is_signed x)")
     (auto simp: magnitude_div10)

declare digitLoop.simps [simp del]

text \<open>The literal written for the smallest negative number, chosen by \<^verbatim>\<open>sizeof(x)\<close>.\<close>

definition minimumText :: "nat \<Rightarrow> string" where
  "minimumText size_of =
     (if size_of = 1 then ''-128''
      else if size_of = 2 then ''-32768''
      else if size_of = 4 then ''-2147483648''
      else ''-9223372036854775808'')"

text \<open>
  \<^verbatim>\<open>writeIntText\<close>.  The array \<^verbatim>\<open>tmp\<close> is not initialised by the source, so its initial
  contents are an argument.  The result is the buffer after the call, or the reason why
  the run has no defined result.  The test \<^verbatim>\<open>x < 0\<close> of the special case comes after the
  negation, so it is reached only when the negation has a result.
\<close>

definition writeIntText ::
  "bool \<Rightarrow> 'a::len word \<Rightarrow> char list \<Rightarrow> WriteBuffer \<Rightarrow> Undefined + WriteBuffer" where
  "writeIntText is_signed x tmp buf =
     (if x = 0 then Inr (writeChar CHR ''0'' buf)
      else
        let negative = isNegative is_signed x
        in case (if negative then negate x else Inr x) of
             Inl e \<Rightarrow> Inl e
           | Inr x1 \<Rightarrow>
               if negative \<and> isNegative is_signed x1
               then Inr (bufWrite (minimumText (LENGTH('a) div 8)) buf)
               else
                 (case digitLoop is_signed x1 tmp (int WRITE_HELPERS_MAX_INT_WIDTH - 1) of
                    None \<Rightarrow> Inl OutOfBounds
                  | Some (tmp1, pos) \<Rightarrow>
                      if negative
                      then (if 0 \<le> pos \<and> pos < int (length tmp1)
                            then Inr (bufWrite (drop (nat pos) (tmp1[nat pos := CHR ''-''])) buf)
                            else Inl OutOfBounds)
                      else (if 0 \<le> pos + 1 \<and> pos + 1 \<le> int (length tmp1)
                            then Inr (bufWrite (drop (nat (pos + 1)) tmp1) buf)
                            else Inl OutOfBounds)))"

text \<open>
  The decimal numeral of an integer, written down from the claim: \<open>0\<close> for zero; otherwise
  an optional leading minus sign, present exactly for a negative number, followed by a
  non-empty string of decimal digits that does not start with \<open>0\<close> and whose value, read
  in base ten, is the absolute value of the number.  \<open>decimalDigits\<close> is used in the proofs
  only.
\<close>

definition isDigit :: "char \<Rightarrow> bool" where
  "isDigit c = (48 \<le> (of_char c :: nat) \<and> (of_char c :: nat) \<le> 57)"

definition decimalValue :: "string \<Rightarrow> nat" where
  "decimalValue ds = foldl (\<lambda>acc c. 10 * acc + (of_char c - 48)) 0 ds"

definition isDigitsOf :: "string \<Rightarrow> nat \<Rightarrow> bool" where
  "isDigitsOf ds n =
     (ds \<noteq> [] \<and> list_all isDigit ds \<and> hd ds \<noteq> CHR ''0'' \<and> decimalValue ds = n)"

definition isDecimalNumeralOf :: "string \<Rightarrow> int \<Rightarrow> bool" where
  "isDecimalNumeralOf s i =
     (if i = 0 then s = ''0''
      else if i < 0
      then (case s of [] \<Rightarrow> False | c # ds \<Rightarrow> c = CHR ''-'' \<and> isDigitsOf ds (nat (- i)))
      else isDigitsOf s (nat i))"

fun decimalDigits :: "nat \<Rightarrow> string" where
  "decimalDigits n =
     (if n = 0 then [] else decimalDigits (n div 10) @ [char_of (48 + n mod 10)])"

declare decimalDigits.simps [simp del]

text \<open>The integer that a word of \<open>T\<close> stands for.\<close>

definition intValue :: "bool \<Rightarrow> 'a::len word \<Rightarrow> int" where
  "intValue is_signed x = (if is_signed then sint x else uint x)"


section \<open>Expression trees in a store\<close>

text \<open>
  \<^verbatim>\<open>replaceToConstants\<close> takes its argument by reference and assigns to it, and an
  \<^verbatim>\<open>ASTPtr\<close> is a shared pointer: whether the caller's tree changes depends on what is
  shared.  In this second model the nodes live in a heap, a list of nodes addressed by
  their index; a node holds its own data and the pointers to its children, and
  \<^verbatim>\<open>make_shared\<close> appends a node.  Recursion over pointers has no structural measure, so
  the functions take fuel and return \<open>None\<close> when it runs out or a pointer dangles.
\<close>

datatype ASTKind = KLiteral Field | KIdentifier string | KExpressionList | KFunction string

datatype Node = Node (nodeKind: ASTKind) (nodeChildren: "nat list")

type_synonym Heap = "Node list"

datatype AtomicFormulaPtr = AtomicFormulaPtr (negativePtr: bool) (astPtr: nat)

text \<open>
  Modelled from the spec: \<^verbatim>\<open>IAST::clone\<close> is missing.  It makes a deep copy: a new node
  with the same data whose children are clones of the children.  \<open>mapHeap\<close> threads the
  heap through the clones of a list of children.
\<close>

fun mapHeap ::
  "(Heap \<Rightarrow> nat \<Rightarrow> (Heap \<times> nat) option) \<Rightarrow> Heap \<Rightarrow> nat list \<Rightarrow> (Heap \<times> nat list) option" where
  "mapHeap f h [] = Some (h, [])"
| "mapHeap f h (c # cs) =
     (case f h c of
        None \<Rightarrow> None
      | Some (h1, c') \<Rightarrow>
          (case mapHeap f h1 cs of
             None \<Rightarrow> None
           | Some (h2, cs') \<Rightarrow> Some (h2, c' # cs')))"

fun cloneHeap :: "nat \<Rightarrow> Heap \<Rightarrow> nat \<Rightarrow> (Heap \<times> nat) option" where
  "cloneHeap 0 h p = None"
| "cloneHeap (Suc fuel) h p =
     (if p < length h
      then (case mapHeap (cloneHeap fuel) h (nodeChildren (h ! p)) of
              None \<Rightarrow> None
            | Some (h', cs') \<Rightarrow> Some (h' @ [Node (nodeKind (h ! p)) cs'], length h'))
      else None)"

text \<open>
  The state of a call of \<^verbatim>\<open>replaceTermsToConstants\<close>: the heap and the local
  \<^verbatim>\<open>result.ast\<close>.  The reference \<^verbatim>\<open>ASTPtr & term\<close> is a slot: either \<^verbatim>\<open>result.ast\<close> or the
  \<open>i\<close>-th child pointer of a node.
\<close>

datatype CallState = CallState (heap: Heap) (result_ast: nat)

datatype Slot = ResultAst | Child nat nat

fun readSlot :: "CallState \<Rightarrow> Slot \<Rightarrow> nat option" where
  "readSlot s ResultAst = Some (result_ast s)"
| "readSlot s (Child q i) =
     (if q < length (heap s) \<and> i < length (nodeChildren (heap s ! q))
      then Some (nodeChildren (heap s ! q) ! i) else None)"

fun writeSlot :: "CallState \<Rightarrow> Slot \<Rightarrow> nat \<Rightarrow> CallState option" where
  "writeSlot s ResultAst p = Some (CallState (heap s) p)"
| "writeSlot s (Child q i) p =
     (if q < length (heap s) \<and> i < length (nodeChildren (heap s ! q))
      then Some (CallState
                  ((heap s)[q := Node (nodeKind (heap s ! q)) ((nodeChildren (heap s ! q))[i := p])])
                  (result_ast s))
      else None)"

text \<open>The loop \<^verbatim>\<open>for (auto & child : term->children)\<close>, over the slots of a node.\<close>

function forChildren ::
  "(CallState \<Rightarrow> Slot \<Rightarrow> CallState option) \<Rightarrow> CallState \<Rightarrow> nat \<Rightarrow> nat \<Rightarrow> nat \<Rightarrow> CallState option" where
  "forChildren f s p i n =
     (if i < n
      then (case f s (Child p i) of None \<Rightarrow> None | Some s' \<Rightarrow> forChildren f s' p (Suc i) n)
      else Some s)"
  by pat_completeness auto
termination
  by (relation "measure (\<lambda>(f, s, p, i, n). n - i)") auto

declare forChildren.simps [simp del]

text \<open>
  \<^verbatim>\<open>replaceToConstants\<close> and \<^verbatim>\<open>replaceTermsToConstants\<close> on the heap.  The graph's
  \<^verbatim>\<open>getEqualConst\<close> reads the heap and returns a pointer to a constant.
\<close>

fun replaceToConstantsHeap ::
  "nat \<Rightarrow> (Heap \<Rightarrow> nat \<Rightarrow> nat option) \<Rightarrow> CallState \<Rightarrow> Slot \<Rightarrow> CallState option" where
  "replaceToConstantsHeap 0 getEqualConstPtr s slot = None"
| "replaceToConstantsHeap (Suc fuel) getEqualConstPtr s slot =
     (case readSlot s slot of
        None \<Rightarrow> None
      | Some p \<Rightarrow>
          (case getEqualConstPtr (heap s) p of
             Some equal_constant \<Rightarrow>
               (case cloneHeap fuel (heap s) equal_constant of
                  None \<Rightarrow> None
                | Some (h', c') \<Rightarrow> writeSlot (CallState h' (result_ast s)) slot c')
           | None \<Rightarrow>
               (if p < length (heap s)
                then forChildren (replaceToConstantsHeap fuel getEqualConstPtr) s p 0
                       (length (nodeChildren (heap s ! p)))
                else None)))"

definition replaceTermsToConstantsHeap ::
  "nat \<Rightarrow> (Heap \<Rightarrow> nat \<Rightarrow> nat option) \<Rightarrow> Heap \<Rightarrow> AtomicFormulaPtr
     \<Rightarrow> (Heap \<times> AtomicFormulaPtr) option" where
  "replaceTermsToConstantsHeap fuel getEqualConstPtr h a =
     (case cloneHeap fuel h (astPtr a) of
        None \<Rightarrow> None
      | Some (h1, p1) \<Rightarrow>
          (case replaceToConstantsHeap fuel getEqualConstPtr (CallState h1 p1) ResultAst of
             None \<Rightarrow> None
           | Some s \<Rightarrow> Some (heap s, AtomicFormulaPtr (negativePtr a) (result_ast s))))"

text \<open>A pointer leads to a tree of depth at most \<open>k\<close> all of whose pointers are valid.\<close>

fun wfTree :: "nat \<Rightarrow> Heap \<Rightarrow> nat \<Rightarrow> bool" where
  "wfTree 0 h p = False"
| "wfTree (Suc k) h p = (p < length h \<and> list_all (wfTree k h) (nodeChildren (h ! p)))"

text \<open>
  An example: the heap holds the literal \<open>3\<close> of the graph at address 0 and the atom
  \<open>x + 1 > 2\<close> at address 7; the graph knows \<open>x = 3\<close>.
\<close>

definition exampleHeap :: Heap where
  "exampleHeap =
     [Node (KLiteral (UInt64 3)) [],
      Node (KIdentifier ''x'') [],
      Node (KLiteral (UInt64 1)) [],
      Node KExpressionList [1, 2],
      Node (KFunction ''plus'') [3],
      Node (KLiteral (UInt64 2)) [],
      Node KExpressionList [4, 5],
      Node (KFunction ''greater'') [6]]"

definition exampleGetEqualConst :: "Heap \<Rightarrow> nat \<Rightarrow> nat option" where
  "exampleGetEqualConst h p =
     (if p < length h \<and> nodeKind (h ! p) = KIdentifier ''x'' then Some 0 else None)"

text \<open>Notions used in the proofs about the heap.\<close>

definition freshExt :: "Heap \<Rightarrow> Heap \<Rightarrow> bool" where
  "freshExt h h' =
     (\<exists>new. h' = h @ new \<and> (\<forall>n \<in> set new. \<forall>c \<in> set (nodeChildren n). length h \<le> c))"

text \<open>What a cloning function promises: it only appends, and returns a fresh address.\<close>

definition clonesFresh :: "(Heap \<Rightarrow> nat \<Rightarrow> (Heap \<times> nat) option) \<Rightarrow> bool" where
  "clonesFresh f =
     (\<forall>h p h' p'. f h p = Some (h', p') \<longrightarrow> freshExt h h' \<and> length h \<le> p' \<and> p' < length h')"

definition closedFrom :: "nat \<Rightarrow> Heap \<Rightarrow> bool" where
  "closedFrom n0 h =
     (\<forall>q. n0 \<le> q \<and> q < length h \<longrightarrow> (\<forall>c \<in> set (nodeChildren (h ! q)). n0 \<le> c))"

definition freshState :: "nat \<Rightarrow> CallState \<Rightarrow> bool" where
  "freshState n0 s = (closedFrom n0 (heap s) \<and> n0 \<le> result_ast s \<and> n0 \<le> length (heap s))"

fun freshSlot :: "nat \<Rightarrow> Slot \<Rightarrow> bool" where
  "freshSlot n0 ResultAst = True"
| "freshSlot n0 (Child q i) = (n0 \<le> q)"

text \<open>What a folding step promises on a state whose nodes from \<open>n0\<close> on are fresh.\<close>

definition keepsBelow :: "nat \<Rightarrow> (CallState \<Rightarrow> Slot \<Rightarrow> CallState option) \<Rightarrow> bool" where
  "keepsBelow n0 f =
     (\<forall>s slot s'. f s slot = Some s' \<longrightarrow> freshState n0 s \<longrightarrow> freshSlot n0 slot \<longrightarrow>
        take n0 (heap s') = take n0 (heap s) \<and> freshState n0 s')"

text \<open>How the heap may change during a call: it grows, no node changes the number of its
  children, and no pointer leads to a deeper structure than before.\<close>

definition evolves :: "Heap \<Rightarrow> Heap \<Rightarrow> bool" where
  "evolves h h' =
     (length h \<le> length h'
      \<and> (\<forall>q < length h. length (nodeChildren (h' ! q)) = length (nodeChildren (h ! q)))
      \<and> (\<forall>j q. wfTree j h q \<longrightarrow> wfTree j h' q))"

text \<open>Cloning a well-formed tree succeeds when the fuel covers its depth.\<close>

definition clonesTotal :: "nat \<Rightarrow> (Heap \<Rightarrow> nat \<Rightarrow> (Heap \<times> nat) option) \<Rightarrow> bool" where
  "clonesTotal k f =
     (\<forall>h p. wfTree k h p \<longrightarrow> (\<exists>h' p'. f h p = Some (h', p') \<and> wfTree k h' p'))"

text \<open>The constants that the graph hands out are childless nodes of the heap \<open>h0\<close>.\<close>

definition constantsAreLeaves :: "(Heap \<Rightarrow> nat \<Rightarrow> nat option) \<Rightarrow> Heap \<Rightarrow> bool" where
  "constantsAreLeaves getEqualConstPtr h0 =
     (\<forall>h p c. getEqualConstPtr h p = Some c \<longrightarrow> c < length h0 \<and> nodeChildren (h0 ! c) = [])"

text \<open>What a folding step promises about its result, for trees of depth at most \<open>k\<close>.\<close>

definition foldsTotal ::
  "nat \<Rightarrow> Heap \<Rightarrow> (CallState \<Rightarrow> Slot \<Rightarrow> CallState option) \<Rightarrow> bool" where
  "foldsTotal k h0 f =
     (\<forall>s slot p. readSlot s slot = Some p \<longrightarrow> wfTree k (heap s) p \<longrightarrow> evolves h0 (heap s) \<longrightarrow>
        (\<exists>s'. f s slot = Some s' \<and> evolves (heap s) (heap s')))"


section \<open>Reference notions used in the statements\<close>

text \<open>
  The claims speak of a binary function atom, of \<^verbatim>\<open>isAlwaysCompare\<close> and
  \<^verbatim>\<open>isPossibleCompare\<close> on the negation-adjusted relation of an atom, and of a declared
  constraint atom with the same expression and the opposite polarity.  These notions are
  written down here from the wording of the claims; they use none of the source functions
  above, and the source functions do not use them.
\<close>

definition isBinaryFunction :: "AtomicFormula \<Rightarrow> bool" where
  "isBinaryFunction a =
     (case ast a of ASTFunction name args \<Rightarrow> length (children args) = 2 | _ \<Rightarrow> False)"

text \<open>
  The negation-adjusted relation of an atom is the relation that the atom asserts of its
  two arguments.  An atom that is not negated asserts the relation that its comparison
  function names; a negated atom asserts the complementary relation (\<open>NOT (x < y)\<close>
  asserts \<open>x \<ge> y\<close>).  A function that is not a comparison, and an expression that is not
  a function, assert no known relation.  Each entry of the table gives, for one
  comparison function, the relation of the plain atom and that of the negated atom.
\<close>

definition comparisonFunctions :: "(string \<times> CompareResult \<times> CompareResult) list" where
  "comparisonFunctions =
     [(''equals'', EQUAL, NOT_EQUAL),
      (''notEquals'', NOT_EQUAL, EQUAL),
      (''less'', LESS, GREATER_OR_EQUAL),
      (''lessOrEquals'', LESS_OR_EQUAL, GREATER),
      (''greater'', GREATER, LESS_OR_EQUAL),
      (''greaterOrEquals'', GREATER_OR_EQUAL, LESS)]"

definition negationAdjustedRelation :: "AtomicFormula \<Rightarrow> CompareResult" where
  "negationAdjustedRelation a =
     (case ast a of
        ASTFunction name args \<Rightarrow>
          (case map_of comparisonFunctions name of
             Some (plain, negated) \<Rightarrow> if negative a then negated else plain
           | None \<Rightarrow> UNKNOWN)
      | _ \<Rightarrow> UNKNOWN)"

text \<open>
  What a relation kind says of two values of a linear order, here the integers.  It is
  used to check the table above: the two relations of an entry are complementary.
\<close>

fun relationHolds :: "CompareResult \<Rightarrow> int \<Rightarrow> int \<Rightarrow> bool" where
  "relationHolds LESS x y = (x < y)"
| "relationHolds LESS_OR_EQUAL x y = (x \<le> y)"
| "relationHolds EQUAL x y = (x = y)"
| "relationHolds GREATER_OR_EQUAL x y = (x \<ge> y)"
| "relationHolds GREATER x y = (x > y)"
| "relationHolds NOT_EQUAL x y = (x \<noteq> y)"
| "relationHolds UNKNOWN x y = True"

definition alwaysCompareAtom :: "ComparisonGraph \<Rightarrow> AtomicFormula \<Rightarrow> bool" where
  "alwaysCompareAtom graph a =
     (case ast a of
        ASTFunction name args \<Rightarrow>
          isAlwaysCompare graph (negationAdjustedRelation a) (children args ! 0) (children args ! 1)
      | _ \<Rightarrow> False)"

definition possibleCompareAtom :: "ComparisonGraph \<Rightarrow> AtomicFormula \<Rightarrow> bool" where
  "possibleCompareAtom graph a =
     (case ast a of
        ASTFunction name args \<Rightarrow>
          isPossibleCompare graph (negationAdjustedRelation a) (children args ! 0) (children args ! 1)
      | _ \<Rightarrow> True)"

text \<open>
  Subsumption-false in the words of the claim: some declared constraint atom has the same
  expression and the opposite polarity.
\<close>

definition subsumptionFalse :: "ConstraintsDescription \<Rightarrow> AtomicFormula \<Rightarrow> bool" where
  "subsumptionFalse cd a =
     (\<exists>c \<in> set (concat (getConstraintData cd)). ast c = ast a \<and> negative c \<noteq> negative a)"

text \<open>
  The same with the fingerprints of the two expressions in place of the expressions: some
  declared constraint atom has the same tree hash and the opposite polarity.
\<close>

definition subsumptionFalseByHash ::
  "(IAST \<Rightarrow> Hash) \<Rightarrow> ConstraintsDescription \<Rightarrow> AtomicFormula \<Rightarrow> bool" where
  "subsumptionFalseByHash getTreeHash cd a =
     (\<exists>c \<in> set (concat (getConstraintData cd)).
        getTreeHash (ast c) = getTreeHash (ast a) \<and> negative c \<noteq> negative a)"

definition graphFalse :: "ComparisonGraph \<Rightarrow> AtomicFormula \<Rightarrow> bool" where
  "graphFalse graph a = (isBinaryFunction a \<and> \<not> possibleCompareAtom graph a)"

text \<open>The identifiers that \<^verbatim>\<open>getAtomIds\<close> collects, named for the proofs.\<close>

definition atomIdsOf :: "(IAST \<Rightarrow> Hash) \<Rightarrow> AtomicFormula list list \<Rightarrow> IAST \<Rightarrow> AtomId list" where
  "atomIdsOf getTreeHash data e =
     concat (map (\<lambda>i. map (\<lambda>j. \<lparr>and_group = i, atom = j\<rparr>)
                    (filter (\<lambda>j. getTreeHash (ast (data ! i ! j)) = getTreeHash e)
                       [0 ..< length (data ! i)]))
                [0 ..< length data])"

text \<open>
  Notions used in the proofs about \<^verbatim>\<open>checkIfGroupAlwaysTrueFullMatch\<close>: the counters
  decremented along a list of group indices, the group indices that one atom and a whole
  group decrement, and the fingerprint and polarity of an atom.
\<close>

fun countdown :: "64 word list \<Rightarrow> nat list \<Rightarrow> 64 word list option" where
  "countdown found [] = Some found"
| "countdown found (i # rest) =
     (let found' = found[i := found ! i - 1]
      in if found' ! i = 0 then None else countdown found' rest)"

definition matchedGroups ::
  "(IAST \<Rightarrow> Hash) \<Rightarrow> AtomicFormula list list \<Rightarrow> AtomicFormula \<Rightarrow> nat list" where
  "matchedGroups h data a =
     map and_group (filter (\<lambda>i. match h (data ! and_group i ! atom i) a = FULL_MATCH)
                      (atomIdsOf h data (ast a)))"

definition atomKey :: "(IAST \<Rightarrow> Hash) \<Rightarrow> AtomicFormula \<Rightarrow> Hash \<times> bool" where
  "atomKey h a = (h (ast a), negative a)"

definition matchCount ::
  "(IAST \<Rightarrow> Hash) \<Rightarrow> AtomicFormula list list \<Rightarrow> nat \<Rightarrow> AtomicFormula \<Rightarrow> nat" where
  "matchCount h data i a =
     length (filter (\<lambda>j. atomKey h (data ! i ! j) = atomKey h a) [0 ..< length (data ! i)])"

definition groupMatches ::
  "(IAST \<Rightarrow> Hash) \<Rightarrow> AtomicFormula list list \<Rightarrow> OrGroup \<Rightarrow> nat list" where
  "groupMatches h data g = concat (map (matchedGroups h data) g)"

section \<open>Concrete collaborators for the examples\<close>

text \<open>
  The examples below run \<^verbatim>\<open>perform\<close> on concrete inputs, so every parameter needs a
  concrete value.  The fingerprint is a polynomial hash of the tree (Java's string hash on
  names); it separates the identifiers \<open>a\<close> and \<open>b\<close> and collides on \<open>Aa\<close> and \<open>BB\<close>.
\<close>

fun strHash :: "string \<Rightarrow> 64 word" where
  "strHash s = foldl (\<lambda>h c. 31 * h + of_nat (of_char c)) 0 s"

fun exampleTreeHash :: "IAST \<Rightarrow> Hash" where
  "exampleTreeHash (ASTLiteral (UInt64 n)) = (0, of_nat n)"
| "exampleTreeHash (ASTLiteral (Int64 i)) = (1, of_int i)"
| "exampleTreeHash (ASTLiteral (String s)) = (2, strHash s)"
| "exampleTreeHash (ASTIdentifier n) = (3, strHash n)"
| "exampleTreeHash (ASTExpressionList cs) =
     (4, foldl (\<lambda>h c. 31 * h + snd c + 7 * fst c) (of_nat (length cs)) (map exampleTreeHash cs))"
| "exampleTreeHash (ASTFunction n args) = (5, 31 * strHash n + snd (exampleTreeHash args))"

definition makeASTFunction :: "string \<Rightarrow> IAST list \<Rightarrow> IAST" where
  "makeASTFunction name args = ASTFunction name (ASTExpressionList args)"

text \<open>
  Modelled from the spec: \<^verbatim>\<open>TreeCNFConverter::toCNF\<close> is missing.  It distributes OR over
  AND; when more groups than a fixed limit would be produced, the result is the single
  group holding the original expression as one atom.
\<close>

definition distribute :: "CNFQuery \<Rightarrow> CNFQuery \<Rightarrow> CNFQuery" where
  "distribute c1 c2 = concat (map (\<lambda>g1. map (\<lambda>g2. g1 @ g2) c2) c1)"

fun cnfOf :: "IAST \<Rightarrow> CNFQuery" where
  "cnfOf (ASTFunction name (ASTExpressionList args)) =
     (if name = ''and'' then concat (map cnfOf args)
      else if name = ''or'' then foldr distribute (map cnfOf args) [[]]
      else [[\<lparr>negative = False, ast = ASTFunction name (ASTExpressionList args)\<rparr>]])"
| "cnfOf e = [[\<lparr>negative = False, ast = e\<rparr>]]"

definition specToCNF :: "nat \<Rightarrow> IAST \<Rightarrow> CNFQuery" where
  "specToCNF limit e =
     (let cnf = cnfOf e
      in if length cnf \<le> limit then cnf else [[\<lparr>negative = False, ast = e\<rparr>]])"

text \<open>
  Modelled from the spec: \<^verbatim>\<open>TreeCNFConverter::fromCNF\<close> is missing.  It rebuilds an
  AND-of-ORs expression; an atom with the negated flag is wrapped in \<open>not\<close>.
\<close>

definition atomToAST :: "AtomicFormula \<Rightarrow> IAST" where
  "atomToAST a = (if negative a then makeASTFunction ''not'' [ast a] else ast a)"

definition specFromCNF :: "CNFQuery \<Rightarrow> IAST option" where
  "specFromCNF cnf =
     Some (makeASTFunction ''and'' (map (\<lambda>g. makeASTFunction ''or'' (map atomToAST g)) cnf))"

text \<open>
  Modelled from the spec: \<^verbatim>\<open>CNFQuery::pullNotOutFunctions\<close> is missing.  Negation is
  represented by the flag of the atom alone, never by a wrapping \<open>not\<close> node.
\<close>

function pullNotOutAtom :: "AtomicFormula \<Rightarrow> AtomicFormula" where
  "pullNotOutAtom a =
     (case ast a of
        ASTFunction name (ASTExpressionList [e]) \<Rightarrow>
          (if name = ''not'' then pullNotOutAtom \<lparr>negative = \<not> negative a, ast = e\<rparr> else a)
      | _ \<Rightarrow> a)"
  by pat_completeness auto
termination
  by (relation "measure (\<lambda>a. size (ast a))") auto

declare pullNotOutAtom.simps [simp del]

definition specPullNotOutFunctions :: "CNFQuery \<Rightarrow> CNFQuery" where
  "specPullNotOutFunctions cnf = map (map pullNotOutAtom) cnf"

text \<open>
  Modelled from the spec: \<^verbatim>\<open>CNFQuery::pushNotInFuntions\<close> is missing.  A negated atom
  that is a comparison becomes the inverse comparison without the flag.
\<close>

definition nameOfCompareResult :: "CompareResult \<Rightarrow> string" where
  "nameOfCompareResult r =
     (case r of EQUAL \<Rightarrow> ''equals'' | NOT_EQUAL \<Rightarrow> ''notEquals'' | LESS \<Rightarrow> ''less''
      | LESS_OR_EQUAL \<Rightarrow> ''lessOrEquals'' | GREATER_OR_EQUAL \<Rightarrow> ''greaterOrEquals''
      | GREATER \<Rightarrow> ''greater'' | UNKNOWN \<Rightarrow> [])"

definition pushNotInAtom :: "AtomicFormula \<Rightarrow> AtomicFormula" where
  "pushNotInAtom a =
     (case ast a of
        ASTFunction name args \<Rightarrow>
          (if negative a \<and> getCompareResult name \<noteq> UNKNOWN
           then \<lparr>negative = False,
                 ast = ASTFunction (nameOfCompareResult (inverseCompareResult (getCompareResult name))) args\<rparr>
           else a)
      | _ \<Rightarrow> a)"

definition specPushNotInFuntions :: "CNFQuery \<Rightarrow> CNFQuery" where
  "specPushNotInFuntions cnf = map (map pushNotInAtom) cnf"

text \<open>
  Modelled from the spec: \<^verbatim>\<open>CNFQuery::reduce\<close> is missing.  It removes duplicate atoms
  within a group and every group that is a proper superset of another group.
\<close>

definition specReduce :: "CNFQuery \<Rightarrow> CNFQuery" where
  "specReduce cnf =
     (let groups = map remdups cnf
      in filter (\<lambda>g. \<not> (\<exists>g' \<in> set groups. set g' \<subset> set g)) groups)"

text \<open>The collaborators together; nothing is logged and no index constraint is appended.\<close>

definition specCollaborators :: "nat \<Rightarrow> Collaborators" where
  "specCollaborators limit =
     \<lparr>toCNF = specToCNF limit, fromCNF = specFromCNF,
      pullNotOutFunctions = specPullNotOutFunctions, reduce = specReduce,
      pushNotInFuntions = specPushNotInFuntions, dump = (\<lambda>cnf. []),
      addIndexConstraints = (\<lambda>m cnf. cnf)\<rparr>"

text \<open>
  Modelled from the spec: the truth value of an expression in a row.  The row gives the
  truth value of every expression that is not a conjunction, disjunction or negation; an
  atom holds iff its expression is true and the flag is off, or false and the flag is on;
  a group is the disjunction of its atoms and a query the conjunction of its groups.
\<close>

fun evaluate :: "(IAST \<Rightarrow> bool) \<Rightarrow> IAST \<Rightarrow> bool" where
  "evaluate row (ASTFunction name (ASTExpressionList args)) =
     (if name = ''and'' then list_all (evaluate row) args
      else if name = ''or'' then list_ex (evaluate row) args
      else if name = ''not''
      then (case args of [e] \<Rightarrow> \<not> evaluate row e
            | _ \<Rightarrow> row (ASTFunction name (ASTExpressionList args)))
      else row (ASTFunction name (ASTExpressionList args)))"
| "evaluate row e = row e"

definition evaluateAtom :: "(IAST \<Rightarrow> bool) \<Rightarrow> AtomicFormula \<Rightarrow> bool" where
  "evaluateAtom row a = (evaluate row (ast a) \<noteq> negative a)"

definition evaluateCNF :: "(IAST \<Rightarrow> bool) \<Rightarrow> CNFQuery \<Rightarrow> bool" where
  "evaluateCNF row cnf = list_all (list_ex (evaluateAtom row)) cnf"

text \<open>Graphs and constraint sets of the examples.\<close>

definition noGraph :: ComparisonGraph where
  "noGraph = \<lparr>isAlwaysCompare = (\<lambda>r a b. False), isPossibleCompare = (\<lambda>r a b. True),
              getEqualConst = (\<lambda>e. None)\<rparr>"

definition graph_x_less_y :: ComparisonGraph where
  "graph_x_less_y =
     \<lparr>isAlwaysCompare = (\<lambda>r a b.
         (a = ASTIdentifier ''x'' \<and> b = ASTIdentifier ''y'' \<and> r \<in> {LESS, LESS_OR_EQUAL, NOT_EQUAL})
         \<or> (a = ASTIdentifier ''y'' \<and> b = ASTIdentifier ''x'' \<and> r \<in> {GREATER, GREATER_OR_EQUAL, NOT_EQUAL})),
      isPossibleCompare = (\<lambda>r a b.
         \<not> ((a = ASTIdentifier ''x'' \<and> b = ASTIdentifier ''y'' \<and> r \<in> {GREATER_OR_EQUAL, GREATER, EQUAL})
            \<or> (a = ASTIdentifier ''y'' \<and> b = ASTIdentifier ''x'' \<and> r \<in> {LESS_OR_EQUAL, LESS, EQUAL}))),
      getEqualConst = (\<lambda>e. None)\<rparr>"

definition graph_x_eq_3 :: ComparisonGraph where
  "graph_x_eq_3 =
     \<lparr>isAlwaysCompare = (\<lambda>r a b.
         (a = ASTIdentifier ''x'' \<and> b = ASTLiteral (UInt64 3) \<or> a = ASTLiteral (UInt64 3) \<and> b = ASTIdentifier ''x'')
         \<and> r \<in> {EQUAL, LESS_OR_EQUAL, GREATER_OR_EQUAL}),
      isPossibleCompare = (\<lambda>r a b.
         \<not> ((a = ASTIdentifier ''x'' \<and> b = ASTLiteral (UInt64 3) \<or> a = ASTLiteral (UInt64 3) \<and> b = ASTIdentifier ''x'')
            \<and> r \<in> {NOT_EQUAL, LESS, GREATER})),
      getEqualConst = (\<lambda>e. if e = ASTIdentifier ''x'' then Some (ASTLiteral (UInt64 3)) else None)\<rparr>"

definition constraints_a_or_b :: ConstraintsDescription where
  "constraints_a_or_b =
     \<lparr>getConstraintData = [[\<lparr>negative = False, ast = ASTIdentifier ''a''\<rparr>,
                            \<lparr>negative = False, ast = ASTIdentifier ''b''\<rparr>]],
      getGraph = noGraph\<rparr>"

definition constraints_Aa :: ConstraintsDescription where
  "constraints_Aa =
     \<lparr>getConstraintData = [[\<lparr>negative = False, ast = ASTIdentifier ''Aa''\<rparr>]],
      getGraph = noGraph\<rparr>"

definition constraints_x_eq_3_and_f_3 :: ConstraintsDescription where
  "constraints_x_eq_3_and_f_3 =
     \<lparr>getConstraintData =
        [[\<lparr>negative = False, ast = makeASTFunction ''equals'' [ASTIdentifier ''x'', ASTLiteral (UInt64 3)]\<rparr>],
         [\<lparr>negative = False, ast = makeASTFunction ''f'' [ASTLiteral (UInt64 3)]\<rparr>]],
      getGraph = graph_x_eq_3\<rparr>"

definition row_b_only :: "IAST \<Rightarrow> bool" where
  "row_b_only e = (e = ASTIdentifier ''b'')"

definition optimizer_a_or_b :: WhereConstraintsOptimizer where
  "optimizer_a_or_b =
     \<lparr>metadata_snapshot = Some \<lparr>getConstraints = constraints_a_or_b\<rparr>,
      optimize_append_index = False\<rparr>"

definition world_a_or_a :: World where
  "world_a_or_a =
     \<lparr>select_query = \<lparr>whereExpression =
        Some (makeASTFunction ''or'' [ASTIdentifier ''a'', ASTIdentifier ''a''])\<rparr>,
      logger = []\<rparr>"

definition world_not_a :: World where
  "world_not_a =
     \<lparr>select_query = \<lparr>whereExpression = Some (makeASTFunction ''not'' [ASTIdentifier ''a''])\<rparr>,
      logger = []\<rparr>"

definition optimizer_x_eq_3 :: WhereConstraintsOptimizer where
  "optimizer_x_eq_3 =
     \<lparr>metadata_snapshot = Some \<lparr>getConstraints = constraints_x_eq_3_and_f_3\<rparr>,
      optimize_append_index = False\<rparr>"

definition world_f_x :: World where
  "world_f_x =
     \<lparr>select_query = \<lparr>whereExpression = Some (makeASTFunction ''f'' [ASTIdentifier ''x''])\<rparr>,
      logger = []\<rparr>"

definition world_g_y :: World where
  "world_g_y =
     \<lparr>select_query = \<lparr>whereExpression =
        Some (makeASTFunction ''and'' [makeASTFunction ''or'' [makeASTFunction ''g'' [ASTIdentifier ''y'']]])\<rparr>,
      logger = []\<rparr>"


section \<open>Matching is by fingerprint\<close>

lemma infinite_IAST: "infinite (UNIV :: IAST set)"
proof
  assume fin: "finite (UNIV :: IAST set)"
  have "inj (\<lambda>n::nat. ASTLiteral (UInt64 n))" by (simp add: inj_def)
  then have "finite (UNIV :: nat set)"
    using fin by (meson finite_imageD finite_subset subset_UNIV)
  then show False by simp
qed

text \<open>
  Whatever function computes the 128-bit fingerprint, two different expressions share
  one: there are infinitely many expressions and finitely many fingerprints.
\<close>

lemma getTreeHash_collides:
  fixes getTreeHash :: "IAST \<Rightarrow> Hash"
  shows "\<exists>a b. a \<noteq> b \<and> getTreeHash a = getTreeHash b"
proof (rule ccontr)
  assume "\<not> (\<exists>a b. a \<noteq> b \<and> getTreeHash a = getTreeHash b)"
  then have "inj getTreeHash" by (auto simp: inj_def)
  moreover have "finite (range getTreeHash)" by simp
  ultimately have "finite (UNIV :: IAST set)" by (rule finite_imageD[rotated])
  then show False using infinite_IAST by simp
qed

text \<open>
  C2, as the code has it: \<^verbatim>\<open>match\<close> looks at the two fingerprints and the two flags and
  at nothing else.  It answers \<open>FULL_MATCH\<close> exactly when the fingerprints are equal and
  the flags are equal, \<open>NOT_MATCH\<close> exactly when the fingerprints are equal and the flags
  differ, and \<open>NONE\<close> exactly when the fingerprints differ.
\<close>

theorem match_compares_fingerprints:
  "(match getTreeHash a b = FULL_MATCH) =
      (getTreeHash (ast a) = getTreeHash (ast b) \<and> negative a = negative b)
   \<and> (match getTreeHash a b = NOT_MATCH) =
      (getTreeHash (ast a) = getTreeHash (ast b) \<and> negative a \<noteq> negative b)
   \<and> (match getTreeHash a b = NONE) = (getTreeHash (ast a) \<noteq> getTreeHash (ast b))"
  by (auto simp: match_def)

text \<open>
  C2 as stated fails: the identifiers \<open>Aa\<close> and \<open>BB\<close> are different expressions with one
  fingerprint, and \<^verbatim>\<open>match\<close> treats them as the same literal.
\<close>

theorem match_full_on_different_expressions:
  "match exampleTreeHash \<lparr>negative = False, ast = ASTIdentifier ''Aa''\<rparr>
                         \<lparr>negative = False, ast = ASTIdentifier ''BB''\<rparr> = FULL_MATCH
   \<and> ASTIdentifier ''Aa'' \<noteq> ASTIdentifier ''BB''"
  by (simp add: match_def)

text \<open>Where the fingerprint separates the two expressions, a full match is equality.\<close>

lemma match_full_inj_on:
  assumes "inj_on getTreeHash {ast a, ast b}"
  shows "(match getTreeHash a b = FULL_MATCH) = (ast a = ast b \<and> negative a = negative b)"
proof -
  have "getTreeHash (ast a) = getTreeHash (ast b) \<Longrightarrow> ast a = ast b"
    by (rule inj_onD[OF assms]) simp_all
  moreover have "ast a = ast b \<Longrightarrow> getTreeHash (ast a) = getTreeHash (ast b)"
    by (erule arg_cong)
  ultimately have eq: "(getTreeHash (ast a) = getTreeHash (ast b)) = (ast a = ast b)"
    by (rule iffI)
  have "(match getTreeHash a b = FULL_MATCH) =
      (getTreeHash (ast a) = getTreeHash (ast b) \<and> negative a = negative b)"
    by (auto simp: match_def)
  then show ?thesis unfolding eq .
qed

section \<open>The negation-adjusted relation\<close>

text \<open>
  \<^verbatim>\<open>getExpectedCompare\<close> computes the negation-adjusted relation of an atom.
\<close>

lemma map_of_comparisonFunctions:
  "map_of comparisonFunctions name =
     (if name = ''equals'' then Some (EQUAL, NOT_EQUAL)
      else if name = ''notEquals'' then Some (NOT_EQUAL, EQUAL)
      else if name = ''less'' then Some (LESS, GREATER_OR_EQUAL)
      else if name = ''lessOrEquals'' then Some (LESS_OR_EQUAL, GREATER)
      else if name = ''greater'' then Some (GREATER, LESS_OR_EQUAL)
      else if name = ''greaterOrEquals'' then Some (GREATER_OR_EQUAL, LESS)
      else None)"
  by (simp add: comparisonFunctions_def)

lemma getExpectedCompare_negationAdjusted:
  "getExpectedCompare a = negationAdjustedRelation a"
  by (simp add: getExpectedCompare_def negationAdjustedRelation_def getCompareResult_def
        map_of_comparisonFunctions split: IAST.splits)

text \<open>
  The two relations of every comparison function are complementary, so the relation of a
  negated comparison atom holds of two values exactly when that of the plain atom does
  not.
\<close>

lemma comparisonFunctions_complementary:
  assumes "map_of comparisonFunctions name = Some (plain, negated)"
  shows "relationHolds negated x y = (\<not> relationHolds plain x y)"
  using assms by (auto simp: map_of_comparisonFunctions split: if_splits)

section \<open>Always-true groups by the graph\<close>

text \<open>
  C4 as stated fails: a group of two atoms, whose first atom is a comparison that the
  graph knows to hold, is reported always true.
\<close>

theorem graph_true_on_two_atom_group:
  "checkIfGroupAlwaysTrueGraph
     [\<lparr>negative = False, ast = makeASTFunction ''less'' [ASTIdentifier ''x'', ASTIdentifier ''y'']\<rparr>,
      \<lparr>negative = False, ast = ASTIdentifier ''z''\<rparr>] graph_x_less_y
   \<and> length
     [\<lparr>negative = False, ast = makeASTFunction ''less'' [ASTIdentifier ''x'', ASTIdentifier ''y'']\<rparr>,
      \<lparr>negative = False, ast = ASTIdentifier ''z''\<rparr>] = 2"
  by code_simp

text \<open>
  C4, amended: if \<^verbatim>\<open>checkIfGroupAlwaysTrueGraph\<close> returns true, then some atom of the
  group is a function of exactly two arguments for which \<^verbatim>\<open>isAlwaysCompare\<close> holds on its
  negation-adjusted relation and its two arguments; and for a group of one atom it
  returns true if and only if that atom is such a function and \<^verbatim>\<open>isAlwaysCompare\<close> holds.
  The negation-adjusted relation is the one that the comparison function names when the
  atom is not negated and the complementary one when it is negated.  The group may have
  more than one atom, and the function need not be a comparison (its relation is then
  \<open>UNKNOWN\<close>).
\<close>

theorem checkIfGroupAlwaysTrueGraph_sound_and_single:
  "(checkIfGroupAlwaysTrueGraph g graph \<longrightarrow>
      (\<exists>a \<in> set g. isBinaryFunction a \<and> alwaysCompareAtom graph a))
   \<and> (checkIfGroupAlwaysTrueGraph [a] graph = (isBinaryFunction a \<and> alwaysCompareAtom graph a))"
proof
  show "checkIfGroupAlwaysTrueGraph g graph \<longrightarrow>
      (\<exists>a \<in> set g. isBinaryFunction a \<and> alwaysCompareAtom graph a)"
    by (induction g)
       (auto simp: isBinaryFunction_def alwaysCompareAtom_def getExpectedCompare_negationAdjusted
          split: IAST.splits if_splits)
  show "checkIfGroupAlwaysTrueGraph [a] graph = (isBinaryFunction a \<and> alwaysCompareAtom graph a)"
    by (auto simp: isBinaryFunction_def alwaysCompareAtom_def getExpectedCompare_negationAdjusted
          split: IAST.splits)
qed

theorem checkIfGroupAlwaysTrueGraph_sound_and_single_witness:
  "checkIfGroupAlwaysTrueGraph
     [\<lparr>negative = False, ast = ASTIdentifier ''z''\<rparr>,
      \<lparr>negative = True, ast = makeASTFunction ''greaterOrEquals'' [ASTIdentifier ''x'', ASTIdentifier ''y'']\<rparr>]
     graph_x_less_y
   \<and> (\<exists>a \<in> set [\<lparr>negative = False, ast = ASTIdentifier ''z''\<rparr>,
      \<lparr>negative = True, ast = makeASTFunction ''greaterOrEquals'' [ASTIdentifier ''x'', ASTIdentifier ''y'']\<rparr>].
        isBinaryFunction a \<and> alwaysCompareAtom graph_x_less_y a)"
proof -
  have run: "checkIfGroupAlwaysTrueGraph
     [\<lparr>negative = False, ast = ASTIdentifier ''z''\<rparr>,
      \<lparr>negative = True, ast = makeASTFunction ''greaterOrEquals'' [ASTIdentifier ''x'', ASTIdentifier ''y'']\<rparr>]
     graph_x_less_y"
    by code_simp
  from run checkIfGroupAlwaysTrueGraph_sound_and_single
     [of "[\<lparr>negative = False, ast = ASTIdentifier ''z''\<rparr>,
      \<lparr>negative = True, ast = makeASTFunction ''greaterOrEquals'' [ASTIdentifier ''x'', ASTIdentifier ''y'']\<rparr>]"
      graph_x_less_y]
  show ?thesis by blast
qed

section \<open>Always-false atoms\<close>

lemma anyNotMatch_iff:
  "anyNotMatch h cs a = (\<exists>c \<in> set cs. match h c a = NOT_MATCH)"
  by (induction cs) (auto simp: Let_def)

lemma getAtomIds_atomIdsOf:
  "getAtomIds h cd e =
     (if atomIdsOf h (getConstraintData cd) e = [] then None
      else Some (atomIdsOf h (getConstraintData cd) e))"
  by (simp add: getAtomIds_def atomIdsOf_def Let_def)

lemma set_atomIdsOf:
  "set (atomIdsOf h data e) =
     {\<lparr>and_group = i, atom = j\<rparr> | i j.
        i < length data \<and> j < length (data ! i) \<and> h (ast (data ! i ! j)) = h e}"
  unfolding atomIdsOf_def by auto

lemma atomIdsOf_D:
  assumes "x \<in> set (atomIdsOf h data e)"
  shows "\<exists>i j. x = \<lparr>and_group = i, atom = j\<rparr> \<and> i < length data \<and>
      j < length (data ! i) \<and> h (ast (data ! i ! j)) = h e"
  using assms unfolding set_atomIdsOf mem_Collect_eq .

lemma atomIdsOf_I:
  assumes "i < length data" "j < length (data ! i)" "h (ast (data ! i ! j)) = h e"
  shows "\<lparr>and_group = i, atom = j\<rparr> \<in> set (atomIdsOf h data e)"
  unfolding set_atomIdsOf mem_Collect_eq
  apply (rule exI[of _ i])
  apply (rule exI[of _ j])
  apply (simp add: assms)
  done

lemma in_set_concat_nth:
  "(x \<in> set (concat xss)) = (\<exists>i j. i < length xss \<and> j < length (xss ! i) \<and> x = xss ! i ! j)"
proof
  assume "x \<in> set (concat xss)"
  then obtain xs where xs: "xs \<in> set xss" "x \<in> set xs" by auto
  then obtain i where i: "i < length xss" "xss ! i = xs" by (auto simp: in_set_conv_nth)
  from xs obtain j where j: "j < length xs" "xs ! j = x" by (auto simp: in_set_conv_nth)
  from i j show "\<exists>i j. i < length xss \<and> j < length (xss ! i) \<and> x = xss ! i ! j" by auto
next
  assume "\<exists>i j. i < length xss \<and> j < length (xss ! i) \<and> x = xss ! i ! j"
  then obtain i j where "i < length xss" "j < length (xss ! i)" "x = xss ! i ! j" by blast
  then have "xss ! i \<in> set xss" "x \<in> set (xss ! i)" by auto
  then show "x \<in> set (concat xss)" by auto
qed

lemma atomIdsOf_resolve:
  fixes data :: "AtomicFormula list list"
  shows "(\<exists>x \<in> set (atomIdsOf h data e). c = data ! and_group x ! atom x)
     \<longleftrightarrow> (\<exists>i j. i < length data \<and> j < length (data ! i) \<and> h (ast (data ! i ! j)) = h e \<and> c = data ! i ! j)"
  (is "?A \<longleftrightarrow> ?B")
proof
  assume ?A
  then obtain x where x: "x \<in> set (atomIdsOf h data e)" "c = data ! and_group x ! atom x" ..
  from atomIdsOf_D[OF x(1)] obtain i j where ij: "x = \<lparr>and_group = i, atom = j\<rparr>" "i < length data"
      "j < length (data ! i)" "h (ast (data ! i ! j)) = h e"
    by (elim exE conjE)
  from ij(1) have "and_group x = i" "atom x = j" by simp_all
  with x(2) have "c = data ! i ! j" by simp
  with ij show ?B by (intro exI[of _ i] exI[of _ j]) simp
next
  assume ?B
  then obtain i j where ij: "i < length data" "j < length (data ! i)"
      "h (ast (data ! i ! j)) = h e" "c = data ! i ! j" by (elim exE conjE)
  let ?x = "\<lparr>and_group = i, atom = j\<rparr>"
  have "?x \<in> set (atomIdsOf h data e)" using ij(1-3) by (rule atomIdsOf_I)
  moreover have "c = data ! and_group ?x ! atom ?x" using ij(4) by simp
  ultimately show ?A ..
qed

lemma set_getAtomsById_atomIdsOf:
  "set (getAtomsById cd (atomIdsOf h (getConstraintData cd) e)) =
     {c \<in> set (concat (getConstraintData cd)). h (ast c) = h e}" (is "?L = ?R")
proof (rule set_eqI)
  fix c
  have "c \<in> ?L \<longleftrightarrow> (\<exists>x \<in> set (atomIdsOf h (getConstraintData cd) e).
             c = getConstraintData cd ! and_group x ! atom x)"
    unfolding getAtomsById_def by auto
  also have "\<dots> \<longleftrightarrow> (\<exists>i j. i < length (getConstraintData cd) \<and> j < length (getConstraintData cd ! i)
            \<and> h (ast (getConstraintData cd ! i ! j)) = h e \<and> c = getConstraintData cd ! i ! j)"
    by (rule atomIdsOf_resolve)
  also have "\<dots> \<longleftrightarrow> c \<in> ?R"
    unfolding mem_Collect_eq in_set_concat_nth by blast
  finally show "c \<in> ?L \<longleftrightarrow> c \<in> ?R" .
qed

lemma checkIfAtomAlwaysFalseFullMatch_iff:
  "checkIfAtomAlwaysFalseFullMatch h a cd = subsumptionFalseByHash h cd a"
proof (cases "atomIdsOf h (getConstraintData cd) (ast a) = []")
  case True
  then have "set (getAtomsById cd (atomIdsOf h (getConstraintData cd) (ast a))) = {}"
    by (simp add: getAtomsById_def)
  then have "{c \<in> set (concat (getConstraintData cd)). h (ast c) = h (ast a)} = {}"
    unfolding set_getAtomsById_atomIdsOf .
  then have "\<not> subsumptionFalseByHash h cd a"
    unfolding subsumptionFalseByHash_def by blast
  moreover have "\<not> checkIfAtomAlwaysFalseFullMatch h a cd"
    using True by (simp add: checkIfAtomAlwaysFalseFullMatch_def getAtomIds_atomIdsOf)
  ultimately show ?thesis by blast
next
  case False
  then have "checkIfAtomAlwaysFalseFullMatch h a cd =
      (\<exists>c \<in> set (getAtomsById cd (atomIdsOf h (getConstraintData cd) (ast a))). match h c a = NOT_MATCH)"
    by (simp add: checkIfAtomAlwaysFalseFullMatch_def getAtomIds_atomIdsOf anyNotMatch_iff)
  also have "\<dots> = subsumptionFalseByHash h cd a"
    unfolding set_getAtomsById_atomIdsOf subsumptionFalseByHash_def by (auto simp: match_def)
  finally show ?thesis .
qed

lemma checkIfAtomAlwaysFalseGraph_iff:
  "checkIfAtomAlwaysFalseGraph a graph = graphFalse graph a"
  by (auto simp: checkIfAtomAlwaysFalseGraph_def graphFalse_def isBinaryFunction_def
        possibleCompareAtom_def getExpectedCompare_negationAdjusted split: IAST.splits)

text \<open>
  C5 as stated fails: the only declared constraint is the identifier \<open>Aa\<close>, and the atom
  \<open>NOT BB\<close> is removed by the step, because the two identifiers have one fingerprint.  No
  declared constraint atom has the expression \<open>BB\<close>, and the atom is not a binary
  function.
\<close>

theorem filterAlwaysFalseAtoms_removes_on_equal_hash:
  "filterAlwaysFalseAtoms
     (\<lambda>a. \<not> checkIfAtomAlwaysFalseFullMatch exampleTreeHash a constraints_Aa
          \<and> \<not> checkIfAtomAlwaysFalseGraph a (getGraph constraints_Aa))
     [[\<lparr>negative = True, ast = ASTIdentifier ''BB''\<rparr>]] = [[]]
   \<and> \<not> subsumptionFalse constraints_Aa \<lparr>negative = True, ast = ASTIdentifier ''BB''\<rparr>
   \<and> \<not> graphFalse (getGraph constraints_Aa) \<lparr>negative = True, ast = ASTIdentifier ''BB''\<rparr>"
  by code_simp

text \<open>
  C5, amended: the predicate that \<^verbatim>\<open>perform\<close> hands to \<^verbatim>\<open>filterAlwaysFalseAtoms\<close> rejects
  an atom if and only if (a) some declared constraint atom has the same tree hash and the
  opposite polarity, or (b) the atom's expression is a function of two arguments and
  \<^verbatim>\<open>isPossibleCompare\<close> is false for its negation-adjusted relation; so the step keeps, in
  every group, exactly the atoms for which neither holds.  The graph check alone answers
  true exactly in case (b), hence never for an atom that is not a binary function.
\<close>

theorem filterAlwaysFalseAtoms_criterion:
  "(\<not> (\<not> checkIfAtomAlwaysFalseFullMatch getTreeHash a cd \<and> \<not> checkIfAtomAlwaysFalseGraph a graph))
      = (subsumptionFalseByHash getTreeHash cd a \<or> graphFalse graph a)
   \<and> filterAlwaysFalseAtoms
        (\<lambda>a. \<not> checkIfAtomAlwaysFalseFullMatch getTreeHash a cd \<and> \<not> checkIfAtomAlwaysFalseGraph a graph)
        cnf
      = map (filter (\<lambda>a. \<not> (subsumptionFalseByHash getTreeHash cd a \<or> graphFalse graph a))) cnf
   \<and> checkIfAtomAlwaysFalseGraph a graph
      = (isBinaryFunction a \<and> \<not> possibleCompareAtom graph a)"
  by (simp add: filterAlwaysFalseAtoms_def checkIfAtomAlwaysFalseFullMatch_iff
        checkIfAtomAlwaysFalseGraph_iff graphFalse_def)

text \<open>
  With a fingerprint that separates the expressions at hand, (a) is about equal
  expressions, as the claim has it.
\<close>

lemma subsumptionFalse_inj_on:
  assumes "inj_on getTreeHash (insert (ast a) (ast ` set (concat (getConstraintData cd))))"
  shows "subsumptionFalseByHash getTreeHash cd a = subsumptionFalse cd a"
proof -
  have "(getTreeHash (ast c) = getTreeHash (ast a)) = (ast c = ast a)"
    if "c \<in> set (concat (getConstraintData cd))" for c
  proof -
    from that have "ast c \<in> insert (ast a) (ast ` set (concat (getConstraintData cd)))"
      by simp
    moreover have "ast a \<in> insert (ast a) (ast ` set (concat (getConstraintData cd)))"
      by simp
    ultimately show ?thesis using assms by (simp only: inj_on_eq_iff)
  qed
  then show ?thesis unfolding subsumptionFalse_def subsumptionFalseByHash_def by simp
qed

section \<open>Constant folding\<close>

text \<open>
  C6: \<^verbatim>\<open>replaceToConstants\<close> replaces a tree by a clone of its equal constant when there
  is one, whatever its children are, and the constant is not processed further; only when
  there is none does it apply the same rule to each child in place.
\<close>

theorem replaceToConstants_top_down:
  "(case getEqualConst graph t of
      Some c \<Rightarrow> replaceToConstants graph t = clone c
    | None \<Rightarrow> replaceToConstants graph t
               = setChildren t (map (replaceToConstants graph) (children t)))"
  by (cases t) (auto split: option.splits)

section \<open>The driver without a WHERE expression or without metadata\<close>

text \<open>
  C8: when the select query has no WHERE expression or the metadata snapshot is absent,
  \<^verbatim>\<open>perform\<close> changes nothing: the query is the same and nothing is logged, whatever the
  collaborators are.
\<close>

theorem perform_noop:
  "whereExpression (select_query w) = None \<or> metadata_snapshot this = None
   \<Longrightarrow> perform env getTreeHash this w = w"
  by (auto simp: perform_def split: option.splits)

theorem perform_noop_witness:
  "perform (specCollaborators 100) exampleTreeHash optimizer_x_eq_3
     \<lparr>select_query = \<lparr>whereExpression = None\<rparr>, logger = []\<rparr>
   = \<lparr>select_query = \<lparr>whereExpression = None\<rparr>, logger = []\<rparr>
   \<and> perform (specCollaborators 100) exampleTreeHash
        \<lparr>metadata_snapshot = None, optimize_append_index = True\<rparr> world_f_x = world_f_x"
  using perform_noop [of "\<lparr>select_query = \<lparr>whereExpression = None\<rparr>, logger = []\<rparr>"
          optimizer_x_eq_3 "specCollaborators 100" exampleTreeHash]
        perform_noop [of world_f_x "\<lparr>metadata_snapshot = None, optimize_append_index = True\<rparr>"
          "specCollaborators 100" exampleTreeHash]
  by simp

section \<open>Soundness and the duplicate atoms\<close>

text \<open>
  C3 at the failing input: the constraint is \<open>a OR b\<close> and the group is \<open>a OR a\<close>.  The
  atom \<open>b\<close> of the constraint does not occur in the group, yet both copies of \<open>a\<close>
  decrement the counter of the constraint group, which reaches zero.
\<close>

theorem fullMatch_counts_duplicates:
  "checkIfGroupAlwaysTrueFullMatch exampleTreeHash
     [\<lparr>negative = False, ast = ASTIdentifier ''a''\<rparr>, \<lparr>negative = False, ast = ASTIdentifier ''a''\<rparr>]
     constraints_a_or_b
   \<and> \<not> checkIfGroupAlwaysTrueFullMatch exampleTreeHash
     [\<lparr>negative = False, ast = ASTIdentifier ''a''\<rparr>] constraints_a_or_b"
  by code_simp

lemma countdown_append:
  "countdown found (xs @ ys) =
     (case countdown found xs of None \<Rightarrow> None | Some found' \<Rightarrow> countdown found' ys)"
  by (induction xs arbitrary: found) (auto simp: Let_def)

lemma fullMatchInner_countdown:
  "fullMatchInner h a (map (\<lambda>i. (i, at i)) ids) found =
     countdown found (map and_group (filter (\<lambda>i. match h (at i) a = FULL_MATCH) ids))"
  by (induction ids arbitrary: found) (auto simp: Let_def)

lemma zip_getAtomsById:
  "zip ids (getAtomsById cd ids) = map (\<lambda>i. (i, getConstraintData cd ! and_group i ! atom i)) ids"
  by (induction ids) (simp_all add: getAtomsById_def)

lemma fullMatchOuter_countdown:
  "fullMatchOuter h cd g found =
     (countdown found (concat (map (matchedGroups h (getConstraintData cd)) g)) = None)"
proof (induction g arbitrary: found)
  case Nil
  then show ?case by simp
next
  case (Cons a g)
  let ?data = "getConstraintData cd"
  let ?ids = "atomIdsOf h ?data (ast a)"
  show ?case
  proof (cases "?ids = []")
    case True
    then have "matchedGroups h ?data a = []" by (simp add: matchedGroups_def)
    then show ?thesis using True Cons.IH by (simp add: getAtomIds_atomIdsOf)
  next
    case False
    have inner: "fullMatchInner h a (zip ?ids (getAtomsById cd ?ids)) found
        = countdown found (matchedGroups h ?data a)"
      unfolding zip_getAtomsById matchedGroups_def by (rule fullMatchInner_countdown)
    show ?thesis
      using False Cons.IH
      by (simp add: getAtomIds_atomIdsOf inner countdown_append split: option.splits)
  qed
qed

lemma countdown_None_iff:
  assumes "length r = length found" "\<forall>i < length r. found ! i = of_nat (r ! i)"
    and "\<forall>i < length r. r ! i < 2 ^ 64"
    and "\<forall>i \<in> set is. i < length r" "\<forall>i < length r. count_list is i \<le> r ! i"
  shows "(countdown found is = None) = (\<exists>i \<in> set is. count_list is i = r ! i)"
  using assms
proof (induction "is" arbitrary: r found)
  case Nil
  then show ?case by simp
next
  case (Cons i rest)
  have i: "i < length r" using Cons.prems(4) by simp
  have ri: "1 \<le> r ! i" using Cons.prems(5) i by force
  let ?r' = "r[i := r ! i - 1]"
  let ?found' = "found[i := found ! i - 1]"
  have fi: "?found' ! i = of_nat (r ! i - 1)"
    using i ri Cons.prems(1,2) by (simp add: of_nat_diff)
  have small: "r ! i - 1 < 2 ^ 64" using Cons.prems(3) i by (meson less_imp_diff_less)
  have zero: "(?found' ! i = 0) = (r ! i = 1)"
  proof -
    have "((of_nat (r ! i - 1) :: 64 word) = 0) = (r ! i - 1 = 0)"
    proof (cases "r ! i - 1 = 0")
      case True
      then show ?thesis by simp
    next
      case False
      then have "(of_nat (r ! i - 1) :: 64 word) \<noteq> 0"
        using small by (intro of_nat_neq_0) simp_all
      then show ?thesis using False by simp
    qed
    then show ?thesis using fi ri by auto
  qed
  show ?case
  proof (cases "r ! i = 1")
    case True
    then have "count_list (i # rest) i = r ! i" using Cons.prems(5) i by force
    then show ?thesis using zero True by (auto simp: Let_def)
  next
    case False
    have len: "length ?r' = length ?found'" using Cons.prems(1) by simp
    have f': "\<forall>j < length ?r'. ?found' ! j = of_nat (?r' ! j)"
    proof (intro allI impI)
      fix j assume j: "j < length ?r'"
      show "?found' ! j = of_nat (?r' ! j)"
      proof (cases "j = i")
        case True
        then show ?thesis using fi i by simp
      next
        case False
        then show ?thesis using Cons.prems(1,2) j by simp
      qed
    qed
    have sm: "\<forall>j < length ?r'. ?r' ! j < 2 ^ 64"
    proof (intro allI impI)
      fix j assume j: "j < length ?r'"
      show "?r' ! j < 2 ^ 64"
      proof (cases "j = i")
        case True
        then show ?thesis using small i by simp
      next
        case False
        then show ?thesis using Cons.prems(3) j by simp
      qed
    qed
    have st: "\<forall>j \<in> set rest. j < length ?r'" using Cons.prems(4) by simp
    have cnt: "\<forall>j < length ?r'. count_list rest j \<le> ?r' ! j"
    proof (intro allI impI)
      fix j assume j: "j < length ?r'"
      show "count_list rest j \<le> ?r' ! j"
      proof (cases "j = i")
        case True
        then show ?thesis using Cons.prems(5) i by force
      next
        case False
        then show ?thesis using Cons.prems(5) j by force
      qed
    qed
    from Cons.IH[OF len f' sm st cnt]
    have ih: "(countdown ?found' rest = None) = (\<exists>j \<in> set rest. count_list rest j = ?r' ! j)" .
    have "(\<exists>j \<in> set rest. count_list rest j = ?r' ! j)
        = (\<exists>j \<in> set (i # rest). count_list (i # rest) j = r ! j)"
    proof
      assume "\<exists>j \<in> set rest. count_list rest j = ?r' ! j"
      then obtain j where j: "j \<in> set rest" "count_list rest j = ?r' ! j" by blast
      then have "count_list (i # rest) j = r ! j"
        using i ri by (cases "j = i") (auto simp: nth_list_update)
      moreover have "j \<in> set (i # rest)" using j(1) by simp
      ultimately show "\<exists>j \<in> set (i # rest). count_list (i # rest) j = r ! j" by blast
    next
      assume "\<exists>j \<in> set (i # rest). count_list (i # rest) j = r ! j"
      then obtain j where j: "j \<in> set (i # rest)" "count_list (i # rest) j = r ! j" by blast
      show "\<exists>j \<in> set rest. count_list rest j = ?r' ! j"
      proof (cases "j = i")
        case True
        then have c: "count_list rest i = r ! i - 1" using j(2) by simp
        then have "0 < count_list rest i" using False ri by linarith
        then have "i \<in> set rest" by (metis count_list_0_iff neq0_conv)
        moreover have "count_list rest i = ?r' ! i" using c i by simp
        ultimately show ?thesis by blast
      next
        case False
        then have "j \<in> set rest" "count_list rest j = ?r' ! j" using j by auto
        then show ?thesis by blast
      qed
    qed
    then show ?thesis using zero False ih by (simp add: Let_def)
  qed
qed

lemma match_full_atomKey: "(match h c a = FULL_MATCH) = (atomKey h c = atomKey h a)"
  by (auto simp: match_def atomKey_def)

lemma map_and_group_ids: "map and_group (map (\<lambda>j. \<lparr>and_group = i, atom = j\<rparr>) js) = replicate (length js) i"
  by (induction js) simp_all

lemma matchedGroups_replicate:
  "matchedGroups h data a =
     concat (map (\<lambda>i. replicate (matchCount h data i a) i) [0 ..< length data])"
proof -
  have inner: "map and_group
      (filter (\<lambda>x. match h (data ! and_group x ! atom x) a = FULL_MATCH)
         (map (\<lambda>j. \<lparr>and_group = i, atom = j\<rparr>)
            (filter (\<lambda>j. h (ast (data ! i ! j)) = h (ast a)) [0 ..< length (data ! i)])))
      = replicate (matchCount h data i a) i" for i
  proof -
    have "filter (\<lambda>x. match h (data ! and_group x ! atom x) a = FULL_MATCH)
         (map (\<lambda>j. \<lparr>and_group = i, atom = j\<rparr>)
            (filter (\<lambda>j. h (ast (data ! i ! j)) = h (ast a)) [0 ..< length (data ! i)]))
       = map (\<lambda>j. \<lparr>and_group = i, atom = j\<rparr>)
           (filter (\<lambda>j. atomKey h (data ! i ! j) = atomKey h a) [0 ..< length (data ! i)])"
    proof -
      have p: "(\<lambda>x. h (ast (data ! i ! x)) = h (ast a) \<and> atomKey h (data ! i ! x) = atomKey h a)
          = (\<lambda>j. atomKey h (data ! i ! j) = atomKey h a)"
        by (auto simp: atomKey_def)
      show ?thesis by (simp add: filter_map comp_def match_full_atomKey p)
    qed
    then show ?thesis by (simp only: map_and_group_ids matchCount_def)
  qed
  show ?thesis
    unfolding matchedGroups_def atomIdsOf_def
    by (simp add: filter_concat map_concat comp_def inner)
qed

lemma count_list_replicate': "count_list (replicate n x) y = (if x = y then n else 0)"
  by (induction n) auto

lemma count_list_replicate_upt:
  "count_list (concat (map (\<lambda>i. replicate (m i) i) [0 ..< N])) k = (if k < N then m k else 0)"
  by (induction N) (auto simp: count_list_replicate')

lemma set_replicate_upt:
  "set (concat (map (\<lambda>i. replicate (m i) i) [0 ..< N])) \<subseteq> {..< N}"
  by auto

lemma count_list_concat:
  "count_list (concat xss) k = sum_list (map (\<lambda>xs. count_list xs k) xss)"
  by (induction xss) simp_all

lemma length_filter_disjoint:
  assumes "\<And>x. x \<in> set xs \<Longrightarrow> \<not> (P x \<and> Q x)"
  shows "length (filter (\<lambda>x. P x \<or> Q x) xs) = length (filter P xs) + length (filter Q xs)"
  using assms by (induction xs) auto

lemma sum_matchCount:
  assumes "distinct (map (atomKey h) g)"
  shows "sum_list (map (matchCount h data i) g)
     = length (filter (\<lambda>j. atomKey h (data ! i ! j) \<in> atomKey h ` set g) [0 ..< length (data ! i)])"
  using assms
proof (induction g)
  case Nil
  then show ?case by simp
next
  case (Cons a g)
  let ?js = "[0 ..< length (data ! i)]"
  let ?P = "\<lambda>j. atomKey h (data ! i ! j) = atomKey h a"
  let ?Q = "\<lambda>j. atomKey h (data ! i ! j) \<in> atomKey h ` set g"
  have "atomKey h a \<notin> atomKey h ` set g" using Cons.prems by simp
  then have disj: "\<And>j. j \<in> set ?js \<Longrightarrow> \<not> (?P j \<and> ?Q j)" by auto
  have split: "length (filter (\<lambda>j. ?P j \<or> ?Q j) ?js) = length (filter ?P ?js) + length (filter ?Q ?js)"
    using disj by (rule length_filter_disjoint)
  have pred: "(\<lambda>j. atomKey h (data ! i ! j) \<in> atomKey h ` set (a # g)) = (\<lambda>j. ?P j \<or> ?Q j)"
    by auto
  have ih: "sum_list (map (matchCount h data i) g) = length (filter ?Q ?js)"
    using Cons by simp
  have "sum_list (map (matchCount h data i) (a # g))
      = matchCount h data i a + sum_list (map (matchCount h data i) g)" by simp
  also have "\<dots> = length (filter ?P ?js) + length (filter ?Q ?js)"
    unfolding ih by (simp add: matchCount_def)
  also have "\<dots> = length (filter (\<lambda>j. ?P j \<or> ?Q j) ?js)" by (rule split[symmetric])
  finally show ?case unfolding pred .
qed

lemma count_groupMatches:
  assumes "distinct (map (atomKey h) g)"
  shows "count_list (groupMatches h data g) i =
     (if i < length data
      then length (filter (\<lambda>j. atomKey h (data ! i ! j) \<in> atomKey h ` set g)
                     [0 ..< length (data ! i)])
      else 0)"
proof -
  have "count_list (groupMatches h data g) i
      = sum_list (map (\<lambda>a. count_list (matchedGroups h data a) i) g)"
    by (simp add: groupMatches_def count_list_concat comp_def)
  also have "\<dots> = sum_list (map (\<lambda>a. if i < length data then matchCount h data i a else 0) g)"
    by (simp add: matchedGroups_replicate count_list_replicate_upt)
  also have "\<dots> = (if i < length data then sum_list (map (matchCount h data i) g) else 0)"
    by (induction g) auto
  finally show ?thesis using sum_matchCount[OF assms] by simp
qed

lemma set_groupMatches: "i \<in> set (groupMatches h data g) \<Longrightarrow> i < length data"
  by (auto simp: groupMatches_def matchedGroups_replicate)

lemma length_filter_eq_length:
  "(length (filter P xs) = length xs) = (\<forall>x \<in> set xs. P x)"
proof
  assume "length (filter P xs) = length xs"
  then have "filter P xs = xs" by (metis length_filter_less less_irrefl filter_True)
  then show "\<forall>x \<in> set xs. P x" by (metis filter_id_conv)
next
  assume "\<forall>x \<in> set xs. P x"
  then show "length (filter P xs) = length xs" by simp
qed

lemma Ball_nth_upt:
  "(\<forall>j \<in> set [0 ..< length xs]. P (xs ! j)) = (\<forall>x \<in> set xs. P x)"
proof
  assume "\<forall>j \<in> set [0 ..< length xs]. P (xs ! j)"
  then show "\<forall>x \<in> set xs. P x" by (auto simp: in_set_conv_nth)
next
  assume "\<forall>x \<in> set xs. P x"
  then show "\<forall>j \<in> set [0 ..< length xs]. P (xs ! j)" by simp
qed

text \<open>
  Without duplicates the count is exact: if no two atoms of the group agree in
  fingerprint and polarity (and no constraint group has \<open>2^64\<close> atoms or more), the
  result is true if and only if some non-empty constraint group has all its atoms in the
  group, by fingerprint and polarity.
\<close>

lemma checkIfGroupAlwaysTrueFullMatch_distinct:
  assumes dist: "distinct (map (atomKey h) g)"
    and small: "\<forall>grp \<in> set (getConstraintData cd). length grp < 2 ^ 64"
  shows "checkIfGroupAlwaysTrueFullMatch h g cd =
     (\<exists>grp \<in> set (getConstraintData cd). grp \<noteq> [] \<and>
        (\<forall>c \<in> set grp. \<exists>a \<in> set g. h (ast a) = h (ast c) \<and> negative a = negative c))"
proof -
  let ?data = "getConstraintData cd"
  let ?r = "map length ?data"
  let ?found = "map (\<lambda>grp. (of_nat (length grp) :: 64 word)) ?data"
  let ?is = "groupMatches h ?data g"
  let ?full = "\<lambda>i. length (filter (\<lambda>j. atomKey h (?data ! i ! j) \<in> atomKey h ` set g)
                     [0 ..< length (?data ! i)])"
  have cnt: "count_list ?is i = ?full i" if "i < length ?data" for i
    using count_groupMatches[OF dist, of ?data i] that by simp
  have run: "checkIfGroupAlwaysTrueFullMatch h g cd = (countdown ?found ?is = None)"
    by (simp add: checkIfGroupAlwaysTrueFullMatch_def fullMatchOuter_countdown groupMatches_def)
  have "(countdown ?found ?is = None) = (\<exists>i \<in> set ?is. count_list ?is i = ?r ! i)"
  proof (rule countdown_None_iff)
    show "length ?r = length ?found" by simp
    show "\<forall>i < length ?r. ?found ! i = of_nat (?r ! i)" by simp
    show "\<forall>i < length ?r. ?r ! i < 2 ^ 64" using small by simp
    show "\<forall>i \<in> set ?is. i < length ?r" using set_groupMatches by auto
    show "\<forall>i < length ?r. count_list ?is i \<le> ?r ! i"
    proof (intro allI impI)
      fix i assume "i < length ?r"
      then have i: "i < length ?data" by simp
      have "?full i \<le> length [0 ..< length (?data ! i)]" by (rule length_filter_le)
      then show "count_list ?is i \<le> ?r ! i" using cnt[OF i] i by simp
    qed
  qed
  also have "\<dots> = (\<exists>i < length ?data. ?data ! i \<noteq> [] \<and>
        (\<forall>c \<in> set (?data ! i). atomKey h c \<in> atomKey h ` set g))"
  proof
    assume "\<exists>i \<in> set ?is. count_list ?is i = ?r ! i"
    then obtain i where i: "i \<in> set ?is" "count_list ?is i = ?r ! i" by blast
    have il: "i < length ?data" using i(1) by (rule set_groupMatches)
    have "0 < count_list ?is i" using i(1) by (metis count_list_0_iff neq0_conv)
    then have ne: "?data ! i \<noteq> []" using i(2) il by auto
    have "?full i = length [0 ..< length (?data ! i)]" using i(2) cnt[OF il] il by simp
    then have "\<forall>j \<in> set [0 ..< length (?data ! i)]. atomKey h (?data ! i ! j) \<in> atomKey h ` set g"
      by (simp only: length_filter_eq_length)
    then have "\<forall>c \<in> set (?data ! i). atomKey h c \<in> atomKey h ` set g"
      by (simp only: Ball_nth_upt[where P="\<lambda>c. atomKey h c \<in> atomKey h ` set g"])
    then show "\<exists>i < length ?data. ?data ! i \<noteq> [] \<and>
        (\<forall>c \<in> set (?data ! i). atomKey h c \<in> atomKey h ` set g)"
      using il ne by blast
  next
    assume "\<exists>i < length ?data. ?data ! i \<noteq> [] \<and>
        (\<forall>c \<in> set (?data ! i). atomKey h c \<in> atomKey h ` set g)"
    then obtain i where i: "i < length ?data" "?data ! i \<noteq> []"
      "\<forall>c \<in> set (?data ! i). atomKey h c \<in> atomKey h ` set g" by blast
    from i(3) have "\<forall>j \<in> set [0 ..< length (?data ! i)]. atomKey h (?data ! i ! j) \<in> atomKey h ` set g"
      by (simp only: Ball_nth_upt[where P="\<lambda>c. atomKey h c \<in> atomKey h ` set g"])
    then have "?full i = length [0 ..< length (?data ! i)]"
      by (simp only: length_filter_eq_length)
    then have c: "count_list ?is i = ?r ! i" using cnt[OF i(1)] i(1) by simp
    then have "0 < count_list ?is i" using i(1,2) by simp
    then have "i \<in> set ?is" by (metis count_list_0_iff neq0_conv)
    then show "\<exists>i \<in> set ?is. count_list ?is i = ?r ! i" using c by blast
  qed
  also have "\<dots> = (\<exists>grp \<in> set ?data. grp \<noteq> [] \<and>
        (\<forall>c \<in> set grp. atomKey h c \<in> atomKey h ` set g))"
    by (metis in_set_conv_nth)
  also have "\<dots> = (\<exists>grp \<in> set ?data. grp \<noteq> [] \<and>
        (\<forall>c \<in> set grp. \<exists>a \<in> set g. h (ast a) = h (ast c) \<and> negative a = negative c))"
  proof -
    have "(atomKey h c \<in> atomKey h ` set g)
        = (\<exists>a \<in> set g. h (ast a) = h (ast c) \<and> negative a = negative c)" for c
      unfolding atomKey_def image_iff prod.inject by (rule bex_cong) auto
    then show ?thesis by (simp only:)
  qed
  finally show ?thesis using run by simp
qed

text \<open>
  C1 at the failing input: the only constraint is \<open>a OR b\<close> and the WHERE expression
  is \<open>NOT a\<close>.  The row makes \<open>b\<close> true and \<open>a\<close> false, so it satisfies the constraint
  and the WHERE expression.  \<^verbatim>\<open>checkIfAtomAlwaysFalseFullMatch\<close> finds the constraint atom
  \<open>a\<close> with the opposite polarity and reports the atom \<open>NOT a\<close> as always false, without
  looking at the other atom of the constraint group; \<^verbatim>\<open>perform\<close> leaves the empty
  disjunction, which is false.
\<close>

theorem perform_unsound_on_disjunctive_constraint:
  "evaluateCNF row_b_only (getConstraintData constraints_a_or_b)
   \<and> evaluate row_b_only (makeASTFunction ''not'' [ASTIdentifier ''a''])
   \<and> whereExpression (select_query
        (perform (specCollaborators 100) exampleTreeHash optimizer_a_or_b world_not_a))
      = Some (makeASTFunction ''and'' [makeASTFunction ''or'' []])
   \<and> \<not> evaluate row_b_only (makeASTFunction ''and'' [makeASTFunction ''or'' []])"
  by code_simp

text \<open>The check in isolation: the atom is reported always false and holds in the row.\<close>

lemma checkIfAtomAlwaysFalseFullMatch_ignores_group:
  "checkIfAtomAlwaysFalseFullMatch exampleTreeHash
     \<lparr>negative = True, ast = ASTIdentifier ''a''\<rparr> constraints_a_or_b
   \<and> evaluateAtom row_b_only \<lparr>negative = True, ast = ASTIdentifier ''a''\<rparr>
   \<and> evaluateCNF row_b_only (getConstraintData constraints_a_or_b)"
  by code_simp

text \<open>
  A second input on which soundness fails, through the duplicate atoms of C3: the WHERE
  expression \<open>a OR a\<close> is false in the same row; \<^verbatim>\<open>perform\<close> drops its only group and
  leaves the empty conjunction, which is true.
\<close>

lemma perform_unsound_on_duplicate_atoms:
  "evaluateCNF row_b_only (getConstraintData constraints_a_or_b)
   \<and> \<not> evaluate row_b_only (makeASTFunction ''or'' [ASTIdentifier ''a'', ASTIdentifier ''a''])
   \<and> whereExpression (select_query
        (perform (specCollaborators 100) exampleTreeHash optimizer_a_or_b world_a_or_a))
      = Some (makeASTFunction ''and'' [])
   \<and> evaluate row_b_only (makeASTFunction ''and'' [])"
  by code_simp

section \<open>A second run\<close>

text \<open>
  C7 as stated fails: with the constraints \<open>x = 3\<close> and \<open>f(3)\<close>, the first run folds the
  WHERE expression \<open>f(x)\<close> to \<open>f(3)\<close>; the second run finds that group among the
  constraints and drops it.
\<close>

theorem perform_second_run_changes:
  "whereExpression (select_query
      (perform (specCollaborators 100) exampleTreeHash optimizer_x_eq_3 world_f_x))
     = Some (makeASTFunction ''and'' [makeASTFunction ''or'' [makeASTFunction ''f'' [ASTLiteral (UInt64 3)]]])
  \<and> whereExpression (select_query
      (perform (specCollaborators 100) exampleTreeHash optimizer_x_eq_3
        (perform (specCollaborators 100) exampleTreeHash optimizer_x_eq_3 world_f_x)))
     = Some (makeASTFunction ''and'' [])"
  by code_simp

text \<open>
  C7, amended: a run leaves the WHERE expression as it is when the CNF of that
  expression, after \<^verbatim>\<open>pullNotOutFunctions\<close>, has no group that is found always true, no
  atom that is found always false and no atom that constant folding changes, and
  \<^verbatim>\<open>reduce\<close>, \<^verbatim>\<open>pushNotInFuntions\<close>, the index appender (when enabled) and \<^verbatim>\<open>fromCNF\<close> lead
  from that CNF back to the expression.  The output of a first run need not meet these
  conditions.
\<close>

theorem perform_stable:
  assumes "whereExpression (select_query w) = Some e"
    and "metadata_snapshot this = Some m"
    and "\<forall>g \<in> set (pullNotOutFunctions env (toCNF env e)).
           \<not> checkIfGroupAlwaysTrueFullMatch getTreeHash g (getConstraints m)
           \<and> \<not> checkIfGroupAlwaysTrueGraph g (getGraph (getConstraints m))"
    and "\<forall>g \<in> set (pullNotOutFunctions env (toCNF env e)). \<forall>a \<in> set g.
           \<not> checkIfAtomAlwaysFalseFullMatch getTreeHash a (getConstraints m)
           \<and> \<not> checkIfAtomAlwaysFalseGraph a (getGraph (getConstraints m))
           \<and> replaceTermsToConstants a (getGraph (getConstraints m)) = a"
    and "fromCNF env
           (if optimize_append_index this
            then addIndexConstraints env m
                   (pushNotInFuntions env (reduce env (pullNotOutFunctions env (toCNF env e))))
            else pushNotInFuntions env (reduce env (pullNotOutFunctions env (toCNF env e))))
         = Some e"
  shows "whereExpression (select_query (perform env getTreeHash this w))
         = whereExpression (select_query w)"
proof -
  let ?c = "pullNotOutFunctions env (toCNF env e)"
  let ?keepG = "\<lambda>g. \<not> checkIfGroupAlwaysTrueFullMatch getTreeHash g (getConstraints m)
                   \<and> \<not> checkIfGroupAlwaysTrueGraph g (getGraph (getConstraints m))"
  let ?keepA = "\<lambda>a. \<not> checkIfAtomAlwaysFalseFullMatch getTreeHash a (getConstraints m)
                   \<and> \<not> checkIfAtomAlwaysFalseGraph a (getGraph (getConstraints m))"
  let ?fold = "\<lambda>a. replaceTermsToConstants a (getGraph (getConstraints m))"
  have s1: "filterAlwaysTrueGroups ?keepG ?c = ?c"
    unfolding filterAlwaysTrueGroups_def using assms(3) by (intro filter_True) blast
  have f2: "filter ?keepA g = g" if "g \<in> set ?c" for g
    using assms(4) that by (intro filter_True) blast
  have s2: "filterAlwaysFalseAtoms ?keepA ?c = ?c"
    unfolding filterAlwaysFalseAtoms_def by (rule map_idI) (rule f2)
  have f3: "map ?fold g = g" if "g \<in> set ?c" for g
    using assms(4) that by (intro map_idI) blast
  have s3: "transformAtoms ?fold ?c = ?c"
    unfolding transformAtoms_def by (rule map_idI) (rule f3)
  have opt: "optimizeCNF env getTreeHash m (toCNF env e)
      = pushNotInFuntions env (reduce env ?c)"
    unfolding optimizeCNF_def Let_def s1 s2 s3 ..
  show ?thesis
    using assms(1,2,5) by (auto simp: perform_def Let_def opt split: if_splits)
qed

theorem perform_stable_witness:
  "whereExpression (select_query
      (perform (specCollaborators 100) exampleTreeHash optimizer_x_eq_3 world_g_y))
   = Some (makeASTFunction ''and'' [makeASTFunction ''or'' [makeASTFunction ''g'' [ASTIdentifier ''y'']]])"
proof -
  let ?e = "makeASTFunction ''and'' [makeASTFunction ''or'' [makeASTFunction ''g'' [ASTIdentifier ''y'']]]"
  let ?env = "specCollaborators 100"
  let ?m = "\<lparr>getConstraints = constraints_x_eq_3_and_f_3\<rparr>"
  have h1: "whereExpression (select_query world_g_y) = Some ?e"
    by (simp add: world_g_y_def)
  have h2: "metadata_snapshot optimizer_x_eq_3 = Some ?m"
    by (simp add: optimizer_x_eq_3_def)
  have h3: "\<forall>g \<in> set (pullNotOutFunctions ?env (toCNF ?env ?e)).
           \<not> checkIfGroupAlwaysTrueFullMatch exampleTreeHash g (getConstraints ?m)
           \<and> \<not> checkIfGroupAlwaysTrueGraph g (getGraph (getConstraints ?m))"
    by code_simp
  have h4: "\<forall>g \<in> set (pullNotOutFunctions ?env (toCNF ?env ?e)). \<forall>a \<in> set g.
           \<not> checkIfAtomAlwaysFalseFullMatch exampleTreeHash a (getConstraints ?m)
           \<and> \<not> checkIfAtomAlwaysFalseGraph a (getGraph (getConstraints ?m))
           \<and> replaceTermsToConstants a (getGraph (getConstraints ?m)) = a"
    by code_simp
  have h5: "fromCNF ?env
           (if optimize_append_index optimizer_x_eq_3
            then addIndexConstraints ?env ?m
                   (pushNotInFuntions ?env (reduce ?env (pullNotOutFunctions ?env (toCNF ?env ?e))))
            else pushNotInFuntions ?env (reduce ?env (pullNotOutFunctions ?env (toCNF ?env ?e))))
         = Some ?e"
    by code_simp
  from perform_stable [OF h1 h2 h3 h4 h5] h1 show ?thesis by simp
qed

section \<open>Integer formatting: correctness\<close>

lemma decimalDigits_0: "decimalDigits 0 = []"
  by (simp add: decimalDigits.simps)

lemma decimalDigits_pos:
  "0 < n \<Longrightarrow> decimalDigits n = decimalDigits (n div 10) @ [char_of (48 + n mod 10)]"
  by (subst decimalDigits.simps) simp

lemma decimalValue_snoc:
  "decimalValue (ds @ [c]) = 10 * decimalValue ds + (of_char c - 48)"
  by (simp add: decimalValue_def)

lemma of_char_digit: "d < 10 \<Longrightarrow> (of_char (char_of (48 + d :: nat)) :: nat) = 48 + d"
  by simp

lemma isDigit_digit: "d < 10 \<Longrightarrow> isDigit (char_of (48 + d :: nat))"
  by (simp add: isDigit_def)

lemma digit_eq_zero: "d < 10 \<Longrightarrow> (char_of (48 + d :: nat) = CHR ''0'') = (d = 0)"
proof -
  assume d: "d < 10"
  have "(of_char (CHR ''0'') :: nat) = 48" by simp
  then have "char_of (48 + d :: nat) = CHR ''0'' \<Longrightarrow> d = 0"
    using of_char_digit[OF d] by (metis add_cancel_right_right)
  moreover have "char_of (48 :: nat) = CHR ''0''" by code_simp
  then have "d = 0 \<Longrightarrow> char_of (48 + d :: nat) = CHR ''0''" by simp
  ultimately show ?thesis by blast
qed

lemma decimalDigits_props:
  "0 < n \<Longrightarrow> isDigitsOf (decimalDigits n) n"
proof (induction n rule: less_induct)
  case (less n)
  let ?q = "n div 10" and ?c = "char_of (48 + n mod 10)"
  have ds: "decimalDigits n = decimalDigits ?q @ [?c]" using less.prems by (rule decimalDigits_pos)
  have r: "n mod 10 < 10" by simp
  show ?case
  proof (cases "?q = 0")
    case True
    then have n10: "n mod 10 = n" "n < 10" using less.prems by (auto simp: div_eq_0_iff)
    have "decimalDigits n = [?c]" using ds True by (simp add: decimalDigits_0)
    moreover have "?c \<noteq> CHR ''0''" using digit_eq_zero[OF r] n10 less.prems by simp
    moreover have "decimalValue [?c] = n"
      using of_char_digit[OF r] n10 by (simp add: decimalValue_def)
    ultimately show ?thesis using isDigit_digit[OF r] by (simp add: isDigitsOf_def)
  next
    case False
    then have "0 < ?q" by simp
    moreover have "?q < n" using less.prems by simp
    ultimately have ih: "isDigitsOf (decimalDigits ?q) ?q" by (rule less.IH[rotated])
    have "decimalValue (decimalDigits n) = 10 * ?q + n mod 10"
      using ih of_char_digit[OF r] by (simp add: ds decimalValue_snoc isDigitsOf_def)
    then have "decimalValue (decimalDigits n) = n" by simp
    then show ?thesis using ih isDigit_digit[OF r] by (simp add: ds isDigitsOf_def)
  qed
qed

lemma length_decimalDigits: "n < 10 ^ k \<Longrightarrow> length (decimalDigits n) \<le> k"
proof (induction k arbitrary: n)
  case 0
  then show ?case by (simp add: decimalDigits_0)
next
  case (Suc k)
  show ?case
  proof (cases "n = 0")
    case True
    then show ?thesis by (simp add: decimalDigits_0)
  next
    case False
    have "n div 10 < 10 ^ k" using Suc.prems by (simp add: less_mult_imp_div_less mult.commute)
    then have "length (decimalDigits (n div 10)) \<le> k" by (rule Suc.IH)
    then show ?thesis using False by (simp add: decimalDigits_pos)
  qed
qed

lemma supported_width_ge: "LENGTH('a::len) \<in> {8, 16, 32, 64} \<Longrightarrow> 8 \<le> LENGTH('a)"
  by auto

lemma uint_10:
  assumes "8 \<le> LENGTH('a::len)"
  shows "uint (10 :: 'a word) = 10"
proof -
  have "(2::nat) ^ 8 \<le> 2 ^ LENGTH('a)" using assms by (intro power_increasing) simp_all
  then have "(10::nat) < 2 ^ LENGTH('a)" by simp
  then have "(10::nat) mod 2 ^ LENGTH('a) = 10" by (rule mod_less)
  then show ?thesis by (simp add: unsigned_numeral take_bit_eq_mod)
qed

lemma intValue_div10:
  fixes x :: "'a::len word"
  assumes "8 \<le> LENGTH('a)" "0 \<le> intValue is_signed x"
  shows "intValue is_signed (div10 is_signed x) = intValue is_signed x div 10"
proof (cases is_signed)
  case True
  let ?v = "sint x"
  have v: "0 \<le> ?v" using assms True by (simp add: intValue_def)
  have sd: "?v sdiv 10 = ?v div 10"
    using v by (cases "?v = 0") (simp_all add: signed_divide_int_def sgn_if)
  show ?thesis
  proof (cases "?v = 0")
    case True
    then show ?thesis using \<open>is_signed\<close> by (simp add: intValue_def div10_def)
  next
    case False
    then have "\<bar>?v div 10\<bar> < \<bar>?v\<bar>" using v by (simp add: int_div_less_self)
    then have "sint (word_of_int (?v div 10) :: 'a word) = ?v div 10"
      by (rule sint_word_of_int_small)
    then show ?thesis using \<open>is_signed\<close> sd by (simp add: intValue_def div10_def)
  qed
next
  case False
  then show ?thesis using uint_10[OF assms(1)] by (simp add: intValue_def div10_def uint_div)
qed

lemma mod10_intValue:
  fixes x :: "'a::len word"
  assumes "8 \<le> LENGTH('a)" "0 \<le> intValue is_signed x"
  shows "mod10 is_signed x = intValue is_signed x mod 10"
proof (cases is_signed)
  case True
  let ?v = "sint x"
  have v: "0 \<le> ?v" using assms True by (simp add: intValue_def)
  have "?v smod 10 = ?v mod 10"
    using v by (cases "?v = 0") (simp_all add: signed_modulo_int_def sgn_if)
  then show ?thesis using True by (simp add: intValue_def mod10_def)
next
  case False
  then show ?thesis using uint_10[OF assms(1)] by (simp add: intValue_def mod10_def uint_mod)
qed

lemma intValue_eq_0: "(intValue is_signed x = 0) = (x = 0)"
  by (simp add: intValue_def signed_eq_0_iff unsigned_eq_0_iff)

lemma digitLoop_correct:
  fixes x :: "'a::len word"
  assumes "8 \<le> LENGTH('a)" "0 \<le> intValue is_signed x"
    and "n = nat (intValue is_signed x)"
    and "int (length (decimalDigits n)) \<le> pos + 1" "pos + 1 \<le> int (length tmp)"
  shows "\<exists>tmp'. digitLoop is_signed x tmp pos = Some (tmp', pos - int (length (decimalDigits n)))
           \<and> length tmp' = length tmp
           \<and> drop (nat (pos + 1 - int (length (decimalDigits n)))) tmp'
              = decimalDigits n @ drop (nat (pos + 1)) tmp"
  using assms(2-)
proof (induction n arbitrary: x tmp pos rule: less_induct)
  case (less n)
  show ?case
  proof (cases "x = 0")
    case True
    then have "n = 0" using less.prems by (simp add: intValue_def)
    then show ?thesis using True by (simp add: decimalDigits_0 digitLoop.simps)
  next
    case False
    then have npos: "0 < n" using less.prems(1,2) intValue_eq_0[of is_signed x] by linarith
    let ?q = "n div 10"
    let ?c = "char_of (48 + n mod 10) :: char"
    let ?x' = "div10 is_signed x"
    let ?tmp1 = "tmp[nat pos := ?c]"
    have ds: "decimalDigits n = decimalDigits ?q @ [?c]" using npos by (rule decimalDigits_pos)
    then have len: "length (decimalDigits n) = Suc (length (decimalDigits ?q))" by simp
    have pos0: "0 \<le> pos" "pos < int (length tmp)" using less.prems(3,4) len by linarith+
    have v': "intValue is_signed ?x' = intValue is_signed x div 10"
      using assms(1) less.prems(1) by (rule intValue_div10)
    have q: "?q = nat (intValue is_signed ?x')"
      using less.prems(1,2) v' by (simp add: nat_div_distrib)
    have c: "char_of (48 + mod10 is_signed x) = ?c"
    proof -
      have "mod10 is_signed x = int (n mod 10)"
        using mod10_intValue[OF assms(1) less.prems(1)] less.prems(1,2)
        by (simp add: nat_mod_distrib zmod_int)
      then have "48 + mod10 is_signed x = int (48 + n mod 10)" by simp
      then show ?thesis by (simp only: char_of_nat)
    qed
    have step: "digitLoop is_signed x tmp pos = digitLoop is_signed ?x' ?tmp1 (pos - 1)"
      using False pos0 c by (subst digitLoop.simps) simp
    have "?q < n" using npos by simp
    moreover have "0 \<le> intValue is_signed ?x'" using v' less.prems(1) by simp
    moreover have "int (length (decimalDigits ?q)) \<le> (pos - 1) + 1"
      using less.prems(3) len by linarith
    moreover have "(pos - 1) + 1 \<le> int (length ?tmp1)" using pos0 by simp
    ultimately obtain tmp' where
      ih: "digitLoop is_signed ?x' ?tmp1 (pos - 1)
             = Some (tmp', (pos - 1) - int (length (decimalDigits ?q)))"
          "length tmp' = length ?tmp1"
          "drop (nat ((pos - 1) + 1 - int (length (decimalDigits ?q)))) tmp'
             = decimalDigits ?q @ drop (nat ((pos - 1) + 1)) ?tmp1"
      using less.IH[of ?q ?x' "pos - 1" ?tmp1] q by blast
    have d: "drop (nat pos) ?tmp1 = ?c # drop (nat (pos + 1)) tmp"
    proof -
      have "nat pos < length tmp" using pos0 by simp
      then have "drop (nat pos) ?tmp1 = ?c # drop (Suc (nat pos)) tmp"
        by (simp add: drop_update_cancel Cons_nth_drop_Suc[symmetric] upd_conv_take_nth_drop)
      moreover have "Suc (nat pos) = nat (pos + 1)" using pos0 by simp
      ultimately show ?thesis by simp
    qed
    have "digitLoop is_signed x tmp pos = Some (tmp', pos - int (length (decimalDigits n)))"
      using step ih(1) len by simp
    moreover have "length tmp' = length tmp" using ih(2) by simp
    moreover have "drop (nat (pos + 1 - int (length (decimalDigits n)))) tmp'
              = decimalDigits n @ drop (nat (pos + 1)) tmp"
    proof -
      have "pos + 1 - int (length (decimalDigits n)) = (pos - 1) + 1 - int (length (decimalDigits ?q))"
        using len by simp
      then show ?thesis using ih(3) d ds by simp
    qed
    ultimately show ?thesis by blast
  qed
qed

lemma two_power_le_64:
  assumes "LENGTH('a::len) \<in> {8, 16, 32, 64}"
  shows "(2::int) ^ LENGTH('a) \<le> 2 ^ 64"
  using assms by (intro power_increasing) auto

lemma unat_digits_le_20:
  fixes x :: "'a::len word"
  assumes "LENGTH('a) \<in> {8, 16, 32, 64}"
  shows "length (decimalDigits (unat x)) \<le> 20"
proof -
  have "unat x < 2 ^ LENGTH('a)" by (rule unsigned_less)
  moreover have "(2::nat) ^ LENGTH('a) \<le> 2 ^ 64" using assms by (intro power_increasing) auto
  moreover have "(2::nat) ^ 64 < 10 ^ 20" by simp
  ultimately have "unat x < 10 ^ 20" by linarith
  then show ?thesis by (rule length_decimalDigits)
qed

lemma sint_digits_le_19:
  fixes x :: "'a::len word"
  assumes "LENGTH('a) \<in> {8, 16, 32, 64}"
  shows "length (decimalDigits (nat (sint x))) \<le> 19"
proof -
  have "sint x < 2 ^ (LENGTH('a) - 1)" by (rule sint_lt)
  moreover have "(2::int) ^ (LENGTH('a) - 1) \<le> 2 ^ 63"
    using assms by (intro power_increasing) auto
  moreover have "(2::int) ^ 63 < 10 ^ 19" by simp
  ultimately have "sint x < 10 ^ 19" by linarith
  moreover have "(0::int) < 10 ^ 19" by simp
  ultimately have "nat (sint x) < nat (10 ^ 19)" by (simp only: nat_mono_iff)
  moreover have "nat ((10::int) ^ 19) = 10 ^ 19" by (simp add: nat_power_eq)
  ultimately have "nat (sint x) < 10 ^ 19" by (simp only:)
  then show ?thesis by (rule length_decimalDigits)
qed

lemma intValue_digits_bound:
  fixes x :: "'a::len word"
  assumes "LENGTH('a) \<in> {8, 16, 32, 64}"
  shows "length (decimalDigits (nat (intValue is_signed x))) \<le> 20"
    and "is_signed \<Longrightarrow> length (decimalDigits (nat (intValue is_signed x))) \<le> 19"
  using unat_digits_le_20[OF assms, of x] sint_digits_le_19[OF assms, of x]
  by (auto simp: intValue_def)

lemma sint_minus_not_min:
  fixes x :: "'a::len word"
  assumes "sint x \<noteq> - (2 ^ (LENGTH('a) - 1))"
  shows "sint (- x) = - sint x"
proof -
  have "- (2 ^ (LENGTH('a) - 1)) \<le> sint x" "sint x < 2 ^ (LENGTH('a) - 1)"
    by (rule sint_ge, rule sint_lt)
  with assms have "- (2 ^ (LENGTH('a) - 1)) \<le> - sint x" "- sint x < 2 ^ (LENGTH('a) - 1)"
    by linarith+
  then show ?thesis by (simp add: sint_word_minus signed_take_bit_int_eq_self)
qed

lemma woi_sint: "word_of_int (sint x) = (x :: 'a::len word)"
  by simp

lemma sint_minus_min:
  fixes x :: "'a::len word"
  assumes "sint x = - (2 ^ (LENGTH('a) - 1))"
  shows "- x = x"
proof -
  have x: "x = word_of_int (- (2 ^ (LENGTH('a) - 1)))"
    using woi_sint[of x] assms by simp
  have "(2::int) ^ (LENGTH('a) - 1) + 2 ^ (LENGTH('a) - 1) = 2 ^ LENGTH('a)"
    by (metis Suc_pred' len_gt_0 mult_2 power_Suc)
  then have "- ((2::int) ^ (LENGTH('a) - 1)) + - (2 ^ (LENGTH('a) - 1)) = - (2 ^ LENGTH('a))"
    by linarith
  then have "(word_of_int (- (2 ^ (LENGTH('a) - 1)) + - (2 ^ (LENGTH('a) - 1))) :: 'a word)
      = word_of_int (- (2 ^ LENGTH('a)))"
    by simp
  also have "\<dots> = - word_of_int (2 ^ LENGTH('a))" by (rule wi_hom_neg[symmetric])
  also have "\<dots> = 0" by (simp only: word_of_int_2p_len) simp
  finally have "x + x = 0" unfolding wi_hom_add[symmetric] x[symmetric] .
  then show ?thesis by (simp add: eq_neg_iff_add_eq_0[symmetric] add_eq_0_iff)
qed

lemma minimumText_numeral:
  assumes "LENGTH('a::len) \<in> {8, 16, 32, 64}"
  shows "isDecimalNumeralOf (minimumText (LENGTH('a) div 8)) (- (2 ^ (LENGTH('a) - 1)))"
proof -
  have 1: "isDecimalNumeralOf (minimumText (8 div 8)) (- (2 ^ (8 - 1)))"
    by (simp add: isDecimalNumeralOf_def minimumText_def isDigitsOf_def decimalValue_def isDigit_def)
  have 2: "isDecimalNumeralOf (minimumText (16 div 8)) (- (2 ^ (16 - 1)))"
    by (simp add: isDecimalNumeralOf_def minimumText_def isDigitsOf_def decimalValue_def isDigit_def)
  have 3: "isDecimalNumeralOf (minimumText (32 div 8)) (- (2 ^ (32 - 1)))"
    by (simp add: isDecimalNumeralOf_def minimumText_def isDigitsOf_def decimalValue_def isDigit_def)
  have 4: "isDecimalNumeralOf (minimumText (64 div 8)) (- (2 ^ (64 - 1)))"
    by (simp add: isDecimalNumeralOf_def minimumText_def isDigitsOf_def decimalValue_def isDigit_def)
  from assms consider "LENGTH('a) = 8" | "LENGTH('a) = 16" | "LENGTH('a) = 32" | "LENGTH('a) = 64"
    by auto
  then show ?thesis
  proof cases
    case 1 then show ?thesis using \<open>isDecimalNumeralOf (minimumText (8 div 8)) (- (2 ^ (8 - 1)))\<close> by simp
  next
    case 2 then show ?thesis using \<open>isDecimalNumeralOf (minimumText (16 div 8)) (- (2 ^ (16 - 1)))\<close> by simp
  next
    case 3 then show ?thesis using \<open>isDecimalNumeralOf (minimumText (32 div 8)) (- (2 ^ (32 - 1)))\<close> by simp
  next
    case 4 then show ?thesis using \<open>isDecimalNumeralOf (minimumText (64 div 8)) (- (2 ^ (64 - 1)))\<close> by simp
  qed
qed

lemma digits_positive:
  fixes x :: "'a::len word"
  assumes w: "LENGTH('a) \<in> {8, 16, 32, 64}" and tmp: "length tmp = 20"
    and v: "0 < intValue is_signed x"
  shows "\<exists>tmp' pos. digitLoop is_signed x tmp 19 = Some (tmp', pos)
          \<and> length tmp' = 20 \<and> - 1 \<le> pos \<and> pos < 20 \<and> (is_signed \<longrightarrow> 0 \<le> pos)
          \<and> drop (nat (pos + 1)) tmp' = decimalDigits (nat (intValue is_signed x))"
proof -
  let ?n = "nat (intValue is_signed x)"
  let ?ds = "decimalDigits ?n"
  have l20: "length ?ds \<le> 20" using intValue_digits_bound(1)[OF w] .
  have l19: "is_signed \<Longrightarrow> length ?ds \<le> 19" using intValue_digits_bound(2)[OF w] .
  have ne: "?ds \<noteq> []" using decimalDigits_props[of ?n] v by (simp add: isDigitsOf_def)
  have ge: "8 \<le> LENGTH('a)" using w by (rule supported_width_ge)
  have p1: "0 \<le> intValue is_signed x" using v by simp
  have p2: "int (length ?ds) \<le> 19 + 1" using l20 by simp
  have p3: "19 + 1 \<le> int (length tmp)" using tmp by simp
  from digitLoop_correct[OF ge p1 refl p2 p3] obtain tmp' where
    r: "digitLoop is_signed x tmp 19 = Some (tmp', 19 - int (length ?ds))"
       "length tmp' = length tmp"
       "drop (nat (19 + 1 - int (length ?ds))) tmp' = ?ds @ drop (nat (19 + 1)) tmp"
    by (elim exE conjE)
  let ?pos = "19 - int (length ?ds)"
  have len20: "length tmp' = 20" using r(2) tmp by simp
  have a: "drop (nat (?pos + 1)) tmp' = ?ds" using r(3) tmp by simp
  have b: "- 1 \<le> ?pos" "?pos < 20" using l20 ne by (simp_all add: Suc_leI)
  have c: "is_signed \<longrightarrow> 0 \<le> ?pos" using l19 by auto
  have "digitLoop is_signed x tmp 19 = Some (tmp', ?pos)
          \<and> length tmp' = 20 \<and> - 1 \<le> ?pos \<and> ?pos < 20 \<and> (is_signed \<longrightarrow> 0 \<le> ?pos)
          \<and> drop (nat (?pos + 1)) tmp' = decimalDigits (nat (intValue is_signed x))"
    using r(1) len20 a b c by (intro conjI)
  then show ?thesis by (intro exI)
qed

text \<open>
  Apart from the smallest value of a signed type of 32 or 64 bits, every value of a
  signed or unsigned integer type of 8, 16, 32 or 64 bits is written as the claim says:
  \<^verbatim>\<open>writeIntText\<close> returns, makes no access outside \<^verbatim>\<open>tmp\<close>, and appends to the buffer
  exactly the decimal numeral of the value: \<open>0\<close> for zero, no leading zero, a leading
  minus sign exactly for a negative value.  The smallest values of the signed types of 8
  and 16 bits are included; they reach the special case, whose literal is their numeral.
\<close>

lemma writeIntText_decimal_defined:
  fixes x :: "'a::len word"
  assumes w: "LENGTH('a) \<in> {8, 16, 32, 64}"
    and tmp: "length tmp = WRITE_HELPERS_MAX_INT_WIDTH"
    and d: "\<not> (is_signed \<and> 32 \<le> LENGTH('a) \<and> sint x = - (2 ^ (LENGTH('a) - 1)))"
  shows "\<exists>s. writeIntText is_signed x tmp buf = Inr (buf @ s)
           \<and> isDecimalNumeralOf s (intValue is_signed x)"
proof -
  have tmp20: "length tmp = 20" using tmp by (simp add: WRITE_HELPERS_MAX_INT_WIDTH_def)
  show ?thesis
  proof (cases "x = 0")
    case True
    then show ?thesis
      by (simp add: writeIntText_def writeChar_def intValue_def isDecimalNumeralOf_def)
  next
    case nz: False
    then have vnz: "intValue is_signed x \<noteq> 0" by (simp add: intValue_eq_0)
    show ?thesis
    proof (cases "isNegative is_signed x")
      case neg: True
      then have sg: is_signed and sneg: "sint x < 0" by (simp_all add: isNegative_def)
      show ?thesis
      proof (cases "sint x = - (2 ^ (LENGTH('a) - 1))")
        case True
        then have "- x = x" by (rule sint_minus_min)
        with neg have negneg: "isNegative is_signed (- x)" by (simp only:)
        have narrow: "LENGTH('a) < 32" using d sg True by simp
        then have n: "negate x = Inr (- x)" by (simp add: negate_def)
        have "writeIntText is_signed x tmp buf
            = Inr (buf @ minimumText (LENGTH('a) div 8))"
          using nz neg negneg by (simp add: writeIntText_def n bufWrite_def Let_def)
        moreover have "isDecimalNumeralOf (minimumText (LENGTH('a) div 8)) (intValue is_signed x)"
          using minimumText_numeral[OF w] True sg by (simp add: intValue_def)
        ultimately show ?thesis by blast
      next
        case False
        then have n: "negate x = Inr (- x)" by (simp add: negate_def)
        from False have m: "sint (- x) = - sint x" by (rule sint_minus_not_min)
        then have notneg: "\<not> isNegative is_signed (- x)" using sneg by (simp add: isNegative_def)
        have v1: "0 < intValue is_signed (- x)" using m sneg sg by (simp add: intValue_def)
        obtain tmp' pos where
          r: "digitLoop is_signed (- x) tmp 19 = Some (tmp', pos)" "length tmp' = 20"
             "0 \<le> pos" "pos < 20"
             "drop (nat (pos + 1)) tmp' = decimalDigits (nat (intValue is_signed (- x)))"
          using digits_positive[OF w tmp20 v1] sg by blast
        let ?ds = "decimalDigits (nat (- sint x))"
        have ds: "drop (nat (pos + 1)) tmp' = ?ds" using r(5) m sg by (simp add: intValue_def)
        have "nat pos < length tmp'" using r(2,3,4) by simp
        then have "drop (nat pos) (tmp'[nat pos := CHR ''-'']) = CHR ''-'' # drop (Suc (nat pos)) tmp'"
          by (simp add: upd_conv_take_nth_drop)
        moreover have "Suc (nat pos) = nat (pos + 1)" using r(3) by simp
        ultimately have out: "drop (nat pos) (tmp'[nat pos := CHR ''-'']) = CHR ''-'' # ?ds"
          using ds by simp
        have "writeIntText is_signed x tmp buf = Inr (buf @ CHR ''-'' # ?ds)"
          using nz neg notneg r(1,2,3,4) out
          by (simp add: writeIntText_def n bufWrite_def WRITE_HELPERS_MAX_INT_WIDTH_def Let_def)
        moreover have "isDecimalNumeralOf (CHR ''-'' # ?ds) (intValue is_signed x)"
          using decimalDigits_props[of "nat (- sint x)"] sneg sg
          by (simp add: isDecimalNumeralOf_def intValue_def)
        ultimately show ?thesis by blast
      qed
    next
      case pos: False
      have "0 \<le> intValue is_signed x"
        using pos by (cases is_signed) (auto simp: intValue_def isNegative_def)
      then have v: "0 < intValue is_signed x"
        using vnz by linarith
      obtain tmp' p where
        r: "digitLoop is_signed x tmp 19 = Some (tmp', p)" "length tmp' = 20"
           "- 1 \<le> p" "p < 20"
           "drop (nat (p + 1)) tmp' = decimalDigits (nat (intValue is_signed x))"
        using digits_positive[OF w tmp20 v] by blast
      have "writeIntText is_signed x tmp buf
          = Inr (buf @ decimalDigits (nat (intValue is_signed x)))"
        using nz pos r
        by (simp add: writeIntText_def bufWrite_def WRITE_HELPERS_MAX_INT_WIDTH_def Let_def)
      moreover have "isDecimalNumeralOf (decimalDigits (nat (intValue is_signed x)))
          (intValue is_signed x)"
        using decimalDigits_props[of "nat (intValue is_signed x)"] v
        by (simp add: isDecimalNumeralOf_def)
      ultimately show ?thesis by blast
    qed
  qed
qed

text \<open>
  The smallest values of the signed types of 8 and of 16 bits reach the special case.
\<close>

lemma writeIntText_minimum_narrow:
  "writeIntText True (- 128 :: 8 word) tmp ''x = '' = Inr ''x = -128''
   \<and> writeIntText True (- 32768 :: 16 word) tmp ''x = '' = Inr ''x = -32768''"
  by (simp add: writeIntText_def negate_def isNegative_def bufWrite_def minimumText_def)

text \<open>Two runs through the digit loop, one of them a negative value next to the smallest.\<close>

lemma writeIntText_examples:
  "writeIntText True (- 2147483647 :: 32 word) (replicate 20 CHR ''?'') ''x = ''
     = Inr ''x = -2147483647''
   \<and> writeIntText False (255 :: 8 word) (replicate 20 CHR ''?'') ''x = '' = Inr ''x = 255''"
  by code_simp

text \<open>
  C10 at the failing input: for the smallest value of the signed types of 64 and of 32
  bits, \<^verbatim>\<open>x = -x\<close> overflows, so the run has no defined result, whatever \<^verbatim>\<open>tmp\<close> and the
  buffer hold; the special case that is to write the literal of that value comes after
  the overflow.
\<close>

theorem writeIntText_minimum_overflows:
  "writeIntText True (- 9223372036854775808 :: 64 word) tmp buf = Inl SignedOverflow
   \<and> writeIntText True (- 2147483648 :: 32 word) tmp buf = Inl SignedOverflow"
  by (simp add: writeIntText_def negate_def isNegative_def)

section \<open>Constant folding works on a clone\<close>

lemma freshExt_refl: "freshExt h h"
  by (simp add: freshExt_def)

lemma freshExt_length: "freshExt h h' \<Longrightarrow> length h \<le> length h'"
  by (auto simp: freshExt_def)

lemma freshExt_take: "freshExt h h' \<Longrightarrow> take (length h) h' = h"
  by (auto simp: freshExt_def)

lemma freshExt_trans:
  assumes "freshExt h h1" "freshExt h1 h2"
  shows "freshExt h h2"
proof -
  from assms(1) obtain new1 where 1: "h1 = h @ new1"
    "\<forall>n \<in> set new1. \<forall>c \<in> set (nodeChildren n). length h \<le> c"
    unfolding freshExt_def by blast
  from assms(2) obtain new2 where 2: "h2 = h1 @ new2"
    "\<forall>n \<in> set new2. \<forall>c \<in> set (nodeChildren n). length h1 \<le> c"
    unfolding freshExt_def by blast
  have "length h \<le> length h1" using 1(1) by simp
  then have "\<forall>n \<in> set new2. \<forall>c \<in> set (nodeChildren n). length h \<le> c"
    using 2(2) by (meson le_trans)
  then have "\<forall>n \<in> set (new1 @ new2). \<forall>c \<in> set (nodeChildren n). length h \<le> c"
    using 1(2) by auto
  moreover have "h2 = h @ (new1 @ new2)" using 1(1) 2(1) by simp
  ultimately show ?thesis unfolding freshExt_def by blast
qed

lemma freshExt_snoc:
  assumes "freshExt h h'" "\<forall>c \<in> set cs. length h \<le> c"
  shows "freshExt h (h' @ [Node k cs])"
proof -
  from assms(1) obtain new where 1: "h' = h @ new"
    "\<forall>n \<in> set new. \<forall>c \<in> set (nodeChildren n). length h \<le> c"
    unfolding freshExt_def by blast
  have "h' @ [Node k cs] = h @ (new @ [Node k cs])" using 1(1) by simp
  moreover have "\<forall>n \<in> set (new @ [Node k cs]). \<forall>c \<in> set (nodeChildren n). length h \<le> c"
    using 1(2) assms(2) by auto
  ultimately show ?thesis unfolding freshExt_def by blast
qed

lemma mapHeap_fresh:
  assumes f: "clonesFresh f"
  shows "mapHeap f h cs = Some (h', cs') \<Longrightarrow>
         freshExt h h' \<and> (\<forall>c \<in> set cs'. length h \<le> c \<and> c < length h')"
proof (induction cs arbitrary: h h' cs')
  case Nil
  then show ?case by (simp add: freshExt_refl)
next
  case (Cons c cs)
  from Cons.prems obtain h1 c1 h2 cs2 where
    s: "f h c = Some (h1, c1)" "mapHeap f h1 cs = Some (h2, cs2)" "h' = h2" "cs' = c1 # cs2"
    by (auto split: option.splits prod.splits)
  from f s(1) have 1: "freshExt h h1" "length h \<le> c1" "c1 < length h1"
    unfolding clonesFresh_def by blast+
  from Cons.IH[OF s(2)] have 2: "freshExt h1 h2" "\<forall>c \<in> set cs2. length h1 \<le> c \<and> c < length h2"
    by blast+
  have l1: "length h \<le> length h1" and l2: "length h1 \<le> length h2"
    using 1(1) 2(1) by (simp_all add: freshExt_length)
  have "freshExt h h2" using 1(1) 2(1) by (rule freshExt_trans)
  moreover have "\<forall>c \<in> set (c1 # cs2). length h \<le> c \<and> c < length h2"
    using 1(2,3) 2(2) l1 l2 by auto
  ultimately show ?case using s(3,4) by simp
qed

lemma cloneHeap_fresh: "clonesFresh (cloneHeap fuel)"
proof (induction fuel)
  case 0
  show ?case by (simp add: clonesFresh_def)
next
  case (Suc fuel)
  show ?case
    unfolding clonesFresh_def
  proof (intro allI impI)
    fix h p h' p'
    assume a: "cloneHeap (Suc fuel) h p = Some (h', p')"
    then obtain h1 cs1 where
      s: "p < length h" "mapHeap (cloneHeap fuel) h (nodeChildren (h ! p)) = Some (h1, cs1)"
         "h' = h1 @ [Node (nodeKind (h ! p)) cs1]" "p' = length h1"
      by (auto split: if_splits option.splits prod.splits)
    from mapHeap_fresh[OF Suc s(2)] have 1: "freshExt h h1"
      "\<forall>c \<in> set cs1. length h \<le> c \<and> c < length h1" by blast+
    have "freshExt h h'" unfolding s(3) using 1 by (intro freshExt_snoc) auto
    moreover have "length h \<le> p'" using 1(1) s(4) by (simp add: freshExt_length)
    moreover have "p' < length h'" using s(3,4) by simp
    ultimately show "freshExt h h' \<and> length h \<le> p' \<and> p' < length h'" by blast
  qed
qed

lemma cloneHeap_freshD:
  assumes "cloneHeap fuel h p = Some (h', p')"
  shows "freshExt h h'" "length h \<le> p'" "p' < length h'"
  using cloneHeap_fresh[of fuel] assms unfolding clonesFresh_def by blast+

lemma closedFrom_freshExt:
  assumes "closedFrom n0 h" "freshExt h h'" "n0 \<le> length h"
  shows "closedFrom n0 h'"
proof -
  from assms(2) obtain new where 1: "h' = h @ new"
    "\<forall>n \<in> set new. \<forall>c \<in> set (nodeChildren n). length h \<le> c"
    unfolding freshExt_def by blast
  show ?thesis
    unfolding closedFrom_def
  proof (intro allI impI ballI)
    fix q c
    assume q: "n0 \<le> q \<and> q < length h'" and c: "c \<in> set (nodeChildren (h' ! q))"
    show "n0 \<le> c"
    proof (cases "q < length h")
      case True
      then have "h' ! q = h ! q" using 1(1) by (simp add: nth_append)
      then show ?thesis using assms(1) q c True unfolding closedFrom_def by auto
    next
      case False
      then have "h' ! q = new ! (q - length h)" using 1(1) by (simp add: nth_append)
      moreover have "q - length h < length new" using q False 1(1) by auto
      ultimately have "h' ! q \<in> set new" by (metis nth_mem)
      then have "length h \<le> c" using 1(2) c by blast
      then show ?thesis using assms(3) by linarith
    qed
  qed
qed

lemma closedFrom_write:
  assumes "closedFrom n0 h" "n0 \<le> c'"
  shows "closedFrom n0 (h[q := Node k ((nodeChildren (h ! q))[i := c'])])"
  unfolding closedFrom_def
proof (intro allI impI ballI)
  fix r c
  let ?h' = "h[q := Node k ((nodeChildren (h ! q))[i := c'])]"
  assume r: "n0 \<le> r \<and> r < length ?h'" and c: "c \<in> set (nodeChildren (?h' ! r))"
  show "n0 \<le> c"
  proof (cases "r = q")
    case True
    then have "nodeChildren (?h' ! r) = (nodeChildren (h ! q))[i := c']" using r by simp
    then have "c \<in> insert c' (set (nodeChildren (h ! q)))"
      using c set_update_subset_insert by fastforce
    then show ?thesis using assms r True unfolding closedFrom_def by auto
  next
    case False
    then have "?h' ! r = h ! r" by simp
    then show ?thesis using assms(1) r c unfolding closedFrom_def by auto
  qed
qed

lemma readSlot_fresh:
  assumes "freshState n0 s" "freshSlot n0 slot" "readSlot s slot = Some p"
  shows "n0 \<le> p"
proof (cases slot)
  case ResultAst
  then show ?thesis using assms by (simp add: freshState_def)
next
  case (Child q i)
  then have "q < length (heap s)" "i < length (nodeChildren (heap s ! q))"
    "p = nodeChildren (heap s ! q) ! i" "n0 \<le> q"
    using assms(2,3) by (auto split: if_splits)
  then show ?thesis using assms(1) unfolding freshState_def closedFrom_def
    by (metis nth_mem)
qed

lemma writeSlot_fresh:
  assumes "freshState n0 s" "freshSlot n0 slot" "n0 \<le> c'" "writeSlot s slot c' = Some s'"
  shows "take n0 (heap s') = take n0 (heap s) \<and> freshState n0 s'
         \<and> length (heap s') = length (heap s)"
proof (cases slot)
  case ResultAst
  then show ?thesis using assms by (auto simp: freshState_def)
next
  case (Child q i)
  then have q: "n0 \<le> q" using assms(2) by simp
  from Child assms(4) have s': "s' = CallState
      ((heap s)[q := Node (nodeKind (heap s ! q)) ((nodeChildren (heap s ! q))[i := c'])])
      (result_ast s)"
    by (auto split: if_splits)
  have "take n0 (heap s') = take n0 (heap s)" using q by (simp add: s')
  moreover have "closedFrom n0 (heap s')"
    using assms(1,3) by (simp add: s' freshState_def closedFrom_write)
  ultimately show ?thesis using assms(1) by (simp add: s' freshState_def)
qed

lemma forChildren_keepsBelow:
  "forChildren f s p i n = Some s' \<Longrightarrow> keepsBelow n0 f \<Longrightarrow> n0 \<le> p \<Longrightarrow> freshState n0 s \<Longrightarrow>
   take n0 (heap s') = take n0 (heap s) \<and> freshState n0 s'"
proof (induction f s p i n rule: forChildren.induct)
  case (1 f s p i n)
  show ?case
  proof (cases "i < n")
    case True
    with "1.prems"(1) obtain s1 where
      s1: "f s (Child p i) = Some s1" "forChildren f s1 p (Suc i) n = Some s'"
      by (subst (asm) forChildren.simps) (auto split: option.splits)
    have "freshSlot n0 (Child p i)" using "1.prems"(3) by simp
    with "1.prems"(2,4) s1(1) have a: "take n0 (heap s1) = take n0 (heap s)" "freshState n0 s1"
      unfolding keepsBelow_def by blast+
    from "1.IH"[OF True s1(1) s1(2) "1.prems"(2,3) a(2)]
    have "take n0 (heap s') = take n0 (heap s1)" "freshState n0 s'" by blast+
    then show ?thesis using a(1) by simp
  next
    case False
    then show ?thesis using "1.prems" by (subst (asm) forChildren.simps) simp
  qed
qed

lemma replaceToConstantsHeap_keepsBelow:
  "keepsBelow n0 (replaceToConstantsHeap fuel getEqualConstPtr)"
proof (induction fuel)
  case 0
  show ?case by (simp add: keepsBelow_def)
next
  case (Suc fuel)
  show ?case
    unfolding keepsBelow_def
  proof (intro allI impI)
    fix s slot s'
    assume run: "replaceToConstantsHeap (Suc fuel) getEqualConstPtr s slot = Some s'"
      and st: "freshState n0 s" and sl: "freshSlot n0 slot"
    from run obtain p where p: "readSlot s slot = Some p"
      by (auto split: option.splits)
    have np: "n0 \<le> p" using st sl p by (rule readSlot_fresh)
    show "take n0 (heap s') = take n0 (heap s) \<and> freshState n0 s'"
    proof (cases "getEqualConstPtr (heap s) p")
      case (Some c)
      with run p obtain h1 c1 where
        c: "cloneHeap fuel (heap s) c = Some (h1, c1)"
           "writeSlot (CallState h1 (result_ast s)) slot c1 = Some s'"
        by (auto split: option.splits prod.splits)
      note f = cloneHeap_freshD[OF c(1)]
      have n0h: "n0 \<le> length (heap s)" using st by (simp add: freshState_def)
      have st1: "freshState n0 (CallState h1 (result_ast s))"
        using st f(1) closedFrom_freshExt[of n0 "heap s" h1] freshExt_length[OF f(1)]
        by (simp add: freshState_def)
      have "n0 \<le> c1" using f(2) n0h by linarith
      from writeSlot_fresh[OF st1 sl this c(2)]
      have "take n0 (heap s') = take n0 h1" "freshState n0 s'" by simp_all
      moreover have "take n0 (take (length (heap s)) h1) = take n0 h1"
        using n0h by (simp add: min_def)
      then have "take n0 h1 = take n0 (heap s)"
        using freshExt_take[OF f(1)] by simp
      ultimately show ?thesis by simp
    next
      case None
      have
        l: "forChildren (replaceToConstantsHeap fuel getEqualConstPtr) s p 0
              (length (nodeChildren (heap s ! p))) = Some s'"
        using run p None by (simp split: if_splits)
      from forChildren_keepsBelow[OF l Suc np st] show ?thesis .
    qed
  qed
qed

lemma replaceTermsToConstantsHeap_frame:
  assumes "replaceTermsToConstantsHeap fuel getEqualConstPtr h a = Some (h', r)"
  shows "negativePtr r = negativePtr a \<and> take (length h) h' = h"
proof -
  from assms obtain h1 p1 s where
    s: "cloneHeap fuel h (astPtr a) = Some (h1, p1)"
       "replaceToConstantsHeap fuel getEqualConstPtr (CallState h1 p1) ResultAst = Some s"
       "h' = heap s" "r = AtomicFormulaPtr (negativePtr a) (result_ast s)"
    unfolding replaceTermsToConstantsHeap_def by (auto split: option.splits prod.splits)
  note f = cloneHeap_freshD[OF s(1)]
  have "closedFrom (length h) h"
    by (simp add: closedFrom_def)
  then have "closedFrom (length h) h1" using f(1) by (rule closedFrom_freshExt) simp
  then have st: "freshState (length h) (CallState h1 p1)"
    using f(2) freshExt_length[OF f(1)] by (simp add: freshState_def)
  have "take (length h) (heap s) = take (length h) (heap (CallState h1 p1))"
    using replaceToConstantsHeap_keepsBelow[of "length h" fuel getEqualConstPtr] s(2) st
    unfolding keepsBelow_def by (metis freshSlot.simps(1))
  then have "take (length h) h' = h" using s(3) freshExt_take[OF f(1)] by simp
  then show ?thesis using s(4) by simp
qed

lemma wfTree_mono: "wfTree k h p \<Longrightarrow> k \<le> k' \<Longrightarrow> wfTree k' h p"
proof (induction k arbitrary: k' p)
  case 0
  then show ?case by simp
next
  case (Suc k)
  then obtain j where j: "k' = Suc j" "k \<le> j" by (cases k') auto
  have "list_all (wfTree j h) (nodeChildren (h ! p))"
    using Suc.prems(1) Suc.IH[OF _ j(2)] by (auto simp: list_all_iff)
  then show ?case using Suc.prems(1) j(1) by simp
qed

lemma wfTree_append: "wfTree k h p \<Longrightarrow> wfTree k (h @ new) p"
proof (induction k arbitrary: p)
  case 0
  then show ?case by simp
next
  case (Suc k)
  then have "p < length h" "list_all (wfTree k h) (nodeChildren (h ! p))" by simp_all
  then show ?case using Suc.IH by (auto simp: nth_append list_all_iff)
qed

lemma wfTree_pos: "wfTree k h p \<Longrightarrow> 0 < k"
  by (cases k) simp_all

lemma evolves_wfTree: "evolves h h' \<Longrightarrow> wfTree j h q \<Longrightarrow> wfTree j h' q"
  unfolding evolves_def by blast

lemma evolves_children:
  "evolves h h' \<Longrightarrow> q < length h \<Longrightarrow> length (nodeChildren (h' ! q)) = length (nodeChildren (h ! q))"
  unfolding evolves_def by blast

lemma evolves_length: "evolves h h' \<Longrightarrow> length h \<le> length h'"
  unfolding evolves_def by blast

lemma evolves_refl: "evolves h h"
  by (simp add: evolves_def)

lemma evolves_trans: "evolves h h1 \<Longrightarrow> evolves h1 h2 \<Longrightarrow> evolves h h2"
  unfolding evolves_def by (metis le_trans less_le_trans)

lemma evolves_append: "evolves h (h @ new)"
  by (simp add: evolves_def nth_append wfTree_append)

lemma evolves_freshExt: "freshExt h h' \<Longrightarrow> evolves h h'"
  by (auto simp: freshExt_def evolves_append)

lemma wfTree_write:
  assumes q: "q < length h" and i: "i < length (nodeChildren (h ! q))"
    and c': "\<And>j. wfTree j h (nodeChildren (h ! q) ! i) \<Longrightarrow> wfTree j h c'"
  shows "wfTree j h r \<Longrightarrow> wfTree j (h[q := Node k ((nodeChildren (h ! q))[i := c'])]) r"
proof (induction j arbitrary: r)
  case 0
  then show ?case by simp
next
  case (Suc j)
  let ?h' = "h[q := Node k ((nodeChildren (h ! q))[i := c'])]"
  from Suc.prems have r: "r < length h" and cs: "list_all (wfTree j h) (nodeChildren (h ! r))"
    by simp_all
  have "list_all (wfTree j ?h') (nodeChildren (?h' ! r))"
  proof (cases "r = q")
    case True
    then have ch: "nodeChildren (?h' ! r) = (nodeChildren (h ! q))[i := c']" using q by simp
    have "wfTree j h (nodeChildren (h ! q) ! i)"
      using cs i True by (simp add: list_all_length)
    then have "wfTree j h c'" by (rule c')
    then have "wfTree j ?h' c'" by (rule Suc.IH)
    moreover have "\<forall>x \<in> set (nodeChildren (h ! q)). wfTree j ?h' x"
      using cs True Suc.IH by (auto simp: list_all_iff)
    ultimately have "\<forall>x \<in> set ((nodeChildren (h ! q))[i := c']). wfTree j ?h' x"
      using set_update_subset_insert[of "nodeChildren (h ! q)" i c'] by blast
    then show ?thesis by (simp add: ch list_all_iff)
  next
    case False
    then have "nodeChildren (?h' ! r) = nodeChildren (h ! r)" by simp
    then show ?thesis using cs Suc.IH by (auto simp: list_all_iff)
  qed
  then show ?case using r by simp
qed

lemma evolves_write:
  assumes q: "q < length h" and i: "i < length (nodeChildren (h ! q))"
    and c': "\<And>j. wfTree j h (nodeChildren (h ! q) ! i) \<Longrightarrow> wfTree j h c'"
  shows "evolves h (h[q := Node k ((nodeChildren (h ! q))[i := c'])])"
proof -
  let ?h' = "h[q := Node k ((nodeChildren (h ! q))[i := c'])]"
  have "length (nodeChildren (?h' ! r)) = length (nodeChildren (h ! r))" if "r < length h" for r
    using that by (cases "r = q") simp_all
  moreover have "wfTree j h r \<Longrightarrow> wfTree j ?h' r" for j r
    using q i c' by (rule wfTree_write)
  ultimately show ?thesis by (simp add: evolves_def)
qed

lemma mapHeap_total:
  assumes f: "clonesTotal k f" "clonesFresh f"
  shows "list_all (wfTree k h) cs \<Longrightarrow>
         \<exists>h' cs'. mapHeap f h cs = Some (h', cs') \<and> list_all (wfTree k h') cs'"
proof (induction cs arbitrary: h)
  case Nil
  then show ?case by simp
next
  case (Cons c cs)
  then have c: "wfTree k h c" and cs: "list_all (wfTree k h) cs" by simp_all
  from f(1) c obtain h1 c1 where 1: "f h c = Some (h1, c1)" "wfTree k h1 c1"
    unfolding clonesTotal_def by blast
  from f(2) 1(1) have "freshExt h h1" unfolding clonesFresh_def by blast
  then have ev: "evolves h h1" by (rule evolves_freshExt)
  then have "list_all (wfTree k h1) cs" using cs by (auto simp: evolves_def list_all_iff)
  from Cons.IH[OF this] obtain h2 cs2 where
    2: "mapHeap f h1 cs = Some (h2, cs2)" "list_all (wfTree k h2) cs2" by blast
  from mapHeap_fresh[OF f(2) 2(1)] have "freshExt h1 h2" by blast
  then have "evolves h1 h2" by (rule evolves_freshExt)
  then have "wfTree k h2 c1" using 1(2) by (simp add: evolves_def)
  then show ?case using 1(1) 2 by simp
qed

lemma cloneHeap_total: "k \<le> fuel \<Longrightarrow> clonesTotal k (cloneHeap fuel)"
proof (induction k arbitrary: fuel)
  case 0
  show ?case by (simp add: clonesTotal_def)
next
  case (Suc k)
  then obtain fuel' where fuel: "fuel = Suc fuel'" "k \<le> fuel'" by (cases fuel) auto
  show ?case
    unfolding clonesTotal_def
  proof (intro allI impI)
    fix h p
    assume "wfTree (Suc k) h p"
    then have p: "p < length h" and cs: "list_all (wfTree k h) (nodeChildren (h ! p))" by simp_all
    from mapHeap_total[OF Suc.IH[OF fuel(2)] cloneHeap_fresh cs] obtain h1 cs1 where
      1: "mapHeap (cloneHeap fuel') h (nodeChildren (h ! p)) = Some (h1, cs1)"
         "list_all (wfTree k h1) cs1" by blast
    let ?n = "Node (nodeKind (h ! p)) cs1"
    have "cloneHeap fuel h p = Some (h1 @ [?n], length h1)" using p 1(1) fuel(1) by simp
    moreover have "list_all (wfTree k (h1 @ [?n])) cs1"
      using 1(2) by (auto simp: list_all_iff wfTree_append)
    then have "wfTree (Suc k) (h1 @ [?n]) (length h1)" by simp
    ultimately show "\<exists>h' p'. cloneHeap fuel h p = Some (h', p') \<and> wfTree (Suc k) h' p'"
      by blast
  qed
qed

lemma clone_leaf:
  assumes "c < length h" "nodeChildren (h ! c) = []"
  shows "cloneHeap (Suc fuel) h c = Some (h @ [Node (nodeKind (h ! c)) []], length h)"
  using assms by simp

lemma forChildren_total:
  "foldsTotal k h0 f \<Longrightarrow> evolves h0 (heap s0) \<Longrightarrow> wfTree (Suc k) (heap s0) p \<Longrightarrow>
   n = length (nodeChildren (heap s0 ! p)) \<Longrightarrow> evolves (heap s0) (heap s) \<Longrightarrow>
   \<exists>s'. forChildren f s p i n = Some s' \<and> evolves (heap s0) (heap s')"
proof (induction f s p i n rule: forChildren.induct)
  case (1 f s p i n)
  show ?case
  proof (cases "i < n")
    case False
    then show ?thesis using "1.prems"(5) by (subst forChildren.simps) simp
  next
    case True
    have p0: "p < length (heap s0)" using "1.prems"(3) by simp
    have wf: "wfTree (Suc k) (heap s) p" using "1.prems"(5,3) by (rule evolves_wfTree)
    then have p: "p < length (heap s)"
      and cs: "list_all (wfTree k (heap s)) (nodeChildren (heap s ! p))" by simp_all
    have len: "length (nodeChildren (heap s ! p)) = n"
      using evolves_children[OF "1.prems"(5) p0] "1.prems"(4) by simp
    then have rd: "readSlot s (Child p i) = Some (nodeChildren (heap s ! p) ! i)"
      using True p by simp
    have wfc: "wfTree k (heap s) (nodeChildren (heap s ! p) ! i)"
      using cs True len by (simp add: list_all_length)
    have ev0: "evolves h0 (heap s)" using "1.prems"(2,5) by (rule evolves_trans)
    from "1.prems"(1) rd wfc ev0 obtain s1 where
      s1: "f s (Child p i) = Some s1" "evolves (heap s) (heap s1)"
      unfolding foldsTotal_def by blast
    have ev1: "evolves (heap s0) (heap s1)" using "1.prems"(5) s1(2) by (rule evolves_trans)
    from "1.IH"[OF True s1(1) "1.prems"(1,2,3,4) ev1] obtain s' where
      "forChildren f s1 p (Suc i) n = Some s'" "evolves (heap s0) (heap s')" by blast
    then show ?thesis using True s1(1) by (subst forChildren.simps) simp
  qed
qed

lemma writeSlot_total:
  assumes rd: "readSlot s slot = Some p"
    and c': "\<And>j. wfTree j (heap s) p \<Longrightarrow> wfTree j (heap s) c'"
  shows "\<exists>s'. writeSlot s slot c' = Some s' \<and> evolves (heap s) (heap s')"
proof (cases slot)
  case ResultAst
  then show ?thesis by (simp add: evolves_refl)
next
  case (Child q i)
  with rd have q: "q < length (heap s)" and i: "i < length (nodeChildren (heap s ! q))"
    and p: "p = nodeChildren (heap s ! q) ! i"
    by (auto split: if_splits)
  have "evolves (heap s)
      ((heap s)[q := Node (nodeKind (heap s ! q)) ((nodeChildren (heap s ! q))[i := c'])])"
    using q i c' unfolding p by (rule evolves_write)
  then show ?thesis using Child q i by simp
qed

lemma readSlot_append:
  "readSlot (CallState h r) slot = Some p \<Longrightarrow> readSlot (CallState (h @ new) r) slot = Some p"
  by (cases slot) (auto simp: nth_append split: if_splits)

lemma replaceToConstantsHeap_total:
  assumes leaves: "constantsAreLeaves getEqualConstPtr h0"
  shows "k < fuel \<Longrightarrow> foldsTotal k h0 (replaceToConstantsHeap fuel getEqualConstPtr)"
proof (induction k arbitrary: fuel)
  case 0
  show ?case by (simp add: foldsTotal_def)
next
  case (Suc k)
  then obtain fuel' where fuel: "fuel = Suc fuel'" "k < fuel'" by (cases fuel) auto
  show ?case
    unfolding foldsTotal_def
  proof (intro allI impI)
    fix s slot p
    assume rd: "readSlot s slot = Some p" and wf: "wfTree (Suc k) (heap s) p"
      and ev: "evolves h0 (heap s)"
    show "\<exists>s'. replaceToConstantsHeap fuel getEqualConstPtr s slot = Some s'
               \<and> evolves (heap s) (heap s')"
    proof (cases "getEqualConstPtr (heap s) p")
      case None
      have p: "p < length (heap s)" using wf by simp
      from forChildren_total[OF Suc.IH[OF fuel(2)] ev wf refl evolves_refl, of 0]
      obtain s' where "forChildren (replaceToConstantsHeap fuel' getEqualConstPtr) s p 0
          (length (nodeChildren (heap s ! p))) = Some s'" "evolves (heap s) (heap s')"
        by blast
      then show ?thesis using rd None p fuel(1) by simp
    next
      case (Some c)
      with leaves have c0: "c < length h0" "nodeChildren (h0 ! c) = []"
        unfolding constantsAreLeaves_def by blast+
      then have c: "c < length (heap s)" "nodeChildren (heap s ! c) = []"
        using evolves_length[OF ev] evolves_children[OF ev, of c] by simp_all
      obtain f2 where f2: "fuel' = Suc f2" using fuel(2) by (cases fuel') auto
      let ?leaf = "Node (nodeKind (heap s ! c)) []"
      let ?h1 = "heap s @ [?leaf]"
      let ?c1 = "length (heap s)"
      have cl: "cloneHeap fuel' (heap s) c = Some (?h1, ?c1)"
        unfolding f2 using c by (rule clone_leaf)
      have rd1: "readSlot (CallState ?h1 (result_ast s)) slot = Some p"
        using rd readSlot_append[of "heap s" "result_ast s" slot p "[?leaf]"] by simp
      have leaf: "wfTree j ?h1 ?c1" if "0 < j" for j
        using that by (cases j) simp_all
      have "wfTree j ?h1 ?c1" if "wfTree j (heap (CallState ?h1 (result_ast s))) p" for j
        using that leaf wfTree_pos by blast
      then have "\<And>j. wfTree j (heap (CallState ?h1 (result_ast s))) p
          \<Longrightarrow> wfTree j (heap (CallState ?h1 (result_ast s))) ?c1" by simp
      from writeSlot_total[OF rd1 this] obtain s' where
        w: "writeSlot (CallState ?h1 (result_ast s)) slot ?c1 = Some s'"
           "evolves ?h1 (heap s')" by auto
      have "evolves (heap s) ?h1" by (rule evolves_append)
      then have "evolves (heap s) (heap s')" using w(2) by (rule evolves_trans)
      moreover have "replaceToConstantsHeap fuel getEqualConstPtr s slot = Some s'"
        using rd Some cl w(1) fuel(1) by simp
      ultimately show ?thesis by blast
    qed
  qed
qed

text \<open>
  C9: \<^verbatim>\<open>replaceTermsToConstants\<close> returns an atom with the flag of its argument, and the
  heap after the call agrees with the heap before it on every address that existed
  before: no node of the argument's tree (nor any other old node) is modified, all writes
  go to the clone.  The call returns whenever the fuel exceeds the depth of the
  argument's tree and the graph's constants are childless nodes of the heap.
\<close>

theorem replaceTermsToConstantsHeap_clone:
  assumes wf: "wfTree k h (astPtr a)" and fuel: "k < fuel"
    and leaves: "\<forall>h' p c. getEqualConstPtr h' p = Some c \<longrightarrow> c < length h \<and> nodeChildren (h ! c) = []"
  shows "\<exists>h' r. replaceTermsToConstantsHeap fuel getEqualConstPtr h a = Some (h', r)
           \<and> negativePtr r = negativePtr a \<and> take (length h) h' = h"
proof -
  have "clonesTotal k (cloneHeap fuel)" using fuel by (intro cloneHeap_total) simp
  with wf obtain h1 p1 where
    c: "cloneHeap fuel h (astPtr a) = Some (h1, p1)" "wfTree k h1 p1"
    unfolding clonesTotal_def by blast
  have ev: "evolves h h1" using cloneHeap_freshD(1)[OF c(1)] by (rule evolves_freshExt)
  have "constantsAreLeaves getEqualConstPtr h" using leaves by (simp add: constantsAreLeaves_def)
  from replaceToConstantsHeap_total[OF this fuel]
  have "foldsTotal k h (replaceToConstantsHeap fuel getEqualConstPtr)" .
  moreover have "readSlot (CallState h1 p1) ResultAst = Some p1" by simp
  ultimately obtain s where
    s: "replaceToConstantsHeap fuel getEqualConstPtr (CallState h1 p1) ResultAst = Some s"
    using c(2) ev unfolding foldsTotal_def by (metis CallState.sel(1))
  let ?r = "AtomicFormulaPtr (negativePtr a) (result_ast s)"
  have run: "replaceTermsToConstantsHeap fuel getEqualConstPtr h a = Some (heap s, ?r)"
    using c(1) s by (simp add: replaceTermsToConstantsHeap_def)
  from replaceTermsToConstantsHeap_frame[OF run] run show ?thesis by blast
qed

theorem replaceTermsToConstantsHeap_clone_witness:
  "wfTree 5 exampleHeap (astPtr (AtomicFormulaPtr True 7)) \<and> (5::nat) < 6
   \<and> (\<exists>h' r. replaceTermsToConstantsHeap 6 exampleGetEqualConst exampleHeap (AtomicFormulaPtr True 7)
               = Some (h', r)
            \<and> negativePtr r = negativePtr (AtomicFormulaPtr True 7)
            \<and> take (length exampleHeap) h' = exampleHeap)"
proof -
  have h1: "wfTree 5 exampleHeap (astPtr (AtomicFormulaPtr True 7))" by code_simp
  have h2: "(5::nat) < 6" by simp
  have h3: "\<forall>h' p c. exampleGetEqualConst h' p = Some c \<longrightarrow>
      c < length exampleHeap \<and> nodeChildren (exampleHeap ! c) = []"
    by (auto simp: exampleGetEqualConst_def exampleHeap_def split: if_splits)
  from replaceTermsToConstantsHeap_clone[OF h1 h2 h3] h1 h2 show ?thesis by blast
qed


end
